theory Spec2Isabelle
  imports Complex_Main "HOL-Library.Sublist"
begin

section \<open>Values, keys and paths\<close>

text \<open>
  The documents that \<^verbatim>\<open>src/js/jsonpath.js\<close> walks are plain JavaScript values. A number is
  a finite double, taken here as the rational it denotes; an array is the list of its
  elements; an object is the list of its own enumerable properties in the order in which
  \<^verbatim>\<open>Object.keys\<close> enumerates them, and a property is looked up by its first binding in
  that list. Strings are lists of 8-bit characters. Members inherited from the built-in
  prototypes (\<^verbatim>\<open>toString\<close>, \<^verbatim>\<open>constructor\<close>, ...) are not part of the model: reading a
  property that a value does not own gives \<^verbatim>\<open>undefined\<close>. An integer key is kept exactly,
  where the source rounds an index literal of more than fifteen digits to the nearest
  double.
\<close>

datatype jsval =
    JUndefined
  | JNull
  | JBool bool
  | JNum rat
  | JStr string
  | JArr "jsval list"
  | JObj "(string \<times> jsval) list"

text \<open>An element of a path is a property name or an array index.\<close>

datatype pkey = KStr string | KNum int

type_synonym path = "pkey list"

text \<open>The only exception the class can raise by itself.\<close>

datatype error = TypeError

text \<open>
  What the engine takes from the JavaScript platform and this development leaves open:
  \<^verbatim>\<open>JSON.parse\<close> (\<open>None\<close> when it throws); the relational comparison \<^verbatim>\<open>x < y\<close> of two
  operands that are not both numbers, once both have been converted to primitive values
  (\<open>None\<close> when the comparison is undefined); and the string that a value which is not a
  string converts to, when it converts.
\<close>

record platform =
  JSON_parse :: "string \<Rightarrow> jsval option"
  less_than :: "jsval \<Rightarrow> jsval \<Rightarrow> bool option"
  to_string :: "jsval \<Rightarrow> string"

section \<open>Compiled plans\<close>

text \<open>The private constants \<^verbatim>\<open>#UNDEFINED = 0\<close> ... \<^verbatim>\<open>#DESCENDANTS = 4\<close>.\<close>

datatype movement = UNDEFINED | ROOT | CURRENT | CHILDREN | DESCENDANTS

text \<open>
  A step is the object literal that \<^verbatim>\<open>#compile\<close> pushes: \<^verbatim>\<open>mv\<close>, \<^verbatim>\<open>k\<close>, \<^verbatim>\<open>steps\<close>, and the
  fields \<^verbatim>\<open>rval\<close>, \<^verbatim>\<open>op\<close> and \<^verbatim>\<open>not\<close> that are added to it later. A field that is absent
  or \<^verbatim>\<open>undefined\<close> is \<open>None\<close>; \<^verbatim>\<open>not\<close> is only ever absent or \<^verbatim>\<open>true\<close>.
\<close>

datatype step = Step
  (s_mv: "movement option")
  (s_k: "pkey option")
  (s_steps: "step list option")
  (s_rval: "jsval option")
  (s_op: "string option")
  (s_not: bool)

abbreviation mk_step :: "movement option \<Rightarrow> pkey option \<Rightarrow> step list option \<Rightarrow> step" where
  "mk_step m key sub \<equiv> Step m key sub None None False"

text \<open>The result \<^verbatim>\<open>{ steps, i }\<close> of \<^verbatim>\<open>#compile\<close>.\<close>

record compiled =
  plan_steps :: "step list"
  plan_i :: nat

section \<open>String primitives\<close>

definition charCodeAt :: "string \<Rightarrow> nat \<Rightarrow> char option" where
  \<comment> \<open>\<open>None\<close> is the \<^verbatim>\<open>NaN\<close> returned past the end of the string\<close>
  "charCodeAt query i = (if i < length query then Some (query ! i) else None)"

definition startsWith :: "string \<Rightarrow> string \<Rightarrow> nat \<Rightarrow> bool" where
  \<comment> \<open>\<^verbatim>\<open>query.startsWith(s, i)\<close>\<close>
  "startsWith query s i = prefix s (drop i query)"

definition slice :: "string \<Rightarrow> nat \<Rightarrow> nat \<Rightarrow> string" where
  \<comment> \<open>\<^verbatim>\<open>query.slice(beg, end)\<close>\<close>
  "slice query beg end = take (end - beg) (drop beg query)"

definition is_digit :: "char \<Rightarrow> bool" where
  "is_digit c = (c \<in> set ''0123456789'')"

definition is_letter :: "char \<Rightarrow> bool" where
  \<comment> \<open>the class \<^verbatim>\<open>[A-Za-z_]\<close>\<close>
  "is_letter c = (c \<in> set ''ABCDEFGHIJKLMNOPQRSTUVWXYZabcdefghijklmnopqrstuvwxyz_'')"

definition is_word :: "char \<Rightarrow> bool" where
  \<comment> \<open>the class \<^verbatim>\<open>\w\<close>\<close>
  "is_word c = (is_letter c \<or> is_digit c)"

definition digit_val :: "char \<Rightarrow> nat" where
  "digit_val c = of_char c - 48"

definition nat_of_digits :: "string \<Rightarrow> nat" where
  "nat_of_digits ds = foldl (\<lambda>n c. 10 * n + digit_val c) 0 ds"

definition parseInt :: "string \<Rightarrow> int option" where
  \<comment> \<open>\<^verbatim>\<open>parseInt(s, 10)\<close> on a string without leading white space: an optional sign, then
      the longest run of digits; \<open>None\<close> is \<^verbatim>\<open>NaN\<close>\<close>
  "parseInt s =
     (let neg = (s \<noteq> [] \<and> hd s = CHR ''-'');
          r = (if s \<noteq> [] \<and> (hd s = CHR ''-'' \<or> hd s = CHR ''+'') then tl s else s);
          ds = takeWhile is_digit r
      in if ds = [] then None
         else Some (if neg then - int (nat_of_digits ds) else int (nat_of_digits ds)))"

section \<open>The regular expressions of the class\<close>

definition reUnquotedIdentifier_exec :: "string \<Rightarrow> string option" where
  \<comment> \<open>\<^verbatim>\<open>/^[A-Za-z_][\w]*|^\*/\<close>: the text matched, if any\<close>
  "reUnquotedIdentifier_exec s =
     (case s of
        [] \<Rightarrow> None
      | c # cs \<Rightarrow>
          if is_letter c then Some (c # takeWhile is_word cs)
          else if c = CHR ''*'' then Some ''*''
          else None)"

definition reIndice_exec :: "string \<Rightarrow> string option" where
  \<comment> \<open>\<^verbatim>\<open>/^\[-?\d+\]/\<close>: the text matched, if any\<close>
  "reIndice_exec s =
     (case s of
        [] \<Rightarrow> None
      | c # r \<Rightarrow>
          if c \<noteq> CHR ''['' then None
          else
            let sign = (if r \<noteq> [] \<and> hd r = CHR ''-'' then ''-'' else '''');
                r' = drop (length sign) r;
                ds = takeWhile is_digit r';
                rest = dropWhile is_digit r'
            in if ds \<noteq> [] \<and> rest \<noteq> [] \<and> hd rest = CHR '']''
               then Some (''['' @ sign @ ds @ '']'')
               else None)"

fun lazy_literal :: "string \<Rightarrow> string \<Rightarrow> string option" where
  \<comment> \<open>the group \<^verbatim>\<open>(.+?)\<close> followed by \<^verbatim>\<open>\)\]\<close>: the shortest non-empty run of characters
      other than line terminators after which the text goes on with \<^verbatim>\<open>)]\<close>\<close>
  "lazy_literal acc [] = None"
| "lazy_literal acc (c # cs) =
     (if c = CHR 0x0A \<or> c = CHR 0x0D then None
      else if prefix '')]'' cs then Some (acc @ [c])
      else lazy_literal (acc @ [c]) cs)"

definition reExpr_exec :: "string \<Rightarrow> (string \<times> string) option" where
  \<comment> \<open>\<^verbatim>\<open>/^([!=^$*]=|[<>]=?)(.+?)\)\]/\<close>: the two groups of the first match in backtracking
      order, if any\<close>
  "reExpr_exec s =
     (case s of
        c # d # r \<Rightarrow>
          if c \<in> set ''!=^$*'' then
            (if d = CHR ''='' then map_option (Pair [c, d]) (lazy_literal [] r) else None)
          else if c \<in> set ''<>'' then
            (case (if d = CHR ''='' then lazy_literal [] r else None) of
               Some lit \<Rightarrow> Some ([c, d], lit)
             | None \<Rightarrow> map_option (Pair [c]) (lazy_literal [] (d # r)))
          else None
      | _ \<Rightarrow> None)"

section \<open>The compiler\<close>

function consumeQuotedIdentifier_loop ::
  "string \<Rightarrow> string list \<Rightarrow> nat \<Rightarrow> nat \<Rightarrow> error + (string \<times> nat) option" where
  "consumeQuotedIdentifier_loop query parts beg end =
     (if length query \<le> end then Inr None
      else if charCodeAt query end = Some (CHR 0x27) then
        (if \<not> startsWith query [CHR 0x27, CHR '']''] end then Inr None
         else Inr (Some (concat (parts @ [slice query beg end]), end + 2)))
      else if charCodeAt query end = Some (CHR 0x5C) \<and> end + 1 < length query then
        Inl TypeError
      else consumeQuotedIdentifier_loop query parts beg (end + 1))"
  by pat_completeness auto
termination
  by (relation "measure (\<lambda>(query, parts, beg, end). length query - end)") auto

declare consumeQuotedIdentifier_loop.simps [simp del]

text \<open>
  \<^verbatim>\<open>#consumeQuotedIdentifier(query, i)\<close>. The loop starts with \<^verbatim>\<open>beg = end = i\<close> and no
  parts. Its caller has just matched two characters before \<open>i\<close>, so \<open>i\<close> is at most the
  length of the query and the exit test \<^verbatim>\<open>end === len\<close> is the test \<open>length query \<le> end\<close>
  of the model. On a backslash that is not the last character the source evaluates
  \<^verbatim>\<open>query.chatCodeAt(end+1)\<close>; a string has no method of that name, so the call throws a
  \<^verbatim>\<open>TypeError\<close> and the statements after it are never reached.
\<close>

definition consumeQuotedIdentifier :: "string \<Rightarrow> nat \<Rightarrow> error + (string \<times> nat) option" where
  "consumeQuotedIdentifier query i = consumeQuotedIdentifier_loop query [] i i"

definition consumeUnquotedIdentifier :: "string \<Rightarrow> nat \<Rightarrow> string option" where
  "consumeUnquotedIdentifier query i = reUnquotedIdentifier_exec (drop i query)"

text \<open>
  \<^verbatim>\<open>#compileExpr(step, query, i)\<close> writes \<^verbatim>\<open>rval\<close> and \<^verbatim>\<open>op\<close> into the step it is given and
  returns the new offset; the model returns the step as well.
\<close>

definition compileExpr :: "platform \<Rightarrow> step \<Rightarrow> string \<Rightarrow> nat \<Rightarrow> step \<times> nat" where
  "compileExpr P st query i =
     (case reExpr_exec (drop i query) of
        None \<Rightarrow> (st, i)
      | Some (opr, lit) \<Rightarrow>
          (case JSON_parse P lit of
             Some v \<Rightarrow>
               (Step (s_mv st) (s_k st) (s_steps st) (Some v) (Some opr) (s_not st),
                i + length opr + length lit)
           | None \<Rightarrow> (st, i + length opr + length lit)))"

text \<open>The anchor step that \<^verbatim>\<open>#compile(query, i)\<close> pushes first, and the offset after it.\<close>

definition anchor :: "string \<Rightarrow> nat \<Rightarrow> step list \<times> nat" where
  "anchor query i =
     ([mk_step (Some (if charCodeAt query i = Some (CHR 0x24) then ROOT else CURRENT)) None None],
      if charCodeAt query i = Some (CHR 0x24) \<or> charCodeAt query i = Some (CHR 0x40)
      then i + 1 else i)"

text \<open>The end of \<^verbatim>\<open>#compile\<close>, after the loop.\<close>

definition compile_end :: "step list \<Rightarrow> nat \<Rightarrow> error + compiled option" where
  "compile_end steps i =
     (if length steps \<le> 1 then Inr None
      else Inr (Some \<lparr>plan_steps = steps, plan_i = i\<rparr>))"

text \<open>\<^verbatim>\<open>r.steps.at(-1).not = true\<close>\<close>

definition set_not_last :: "step list \<Rightarrow> error + step list" where
  "set_not_last ss =
     (case ss of
        [] \<Rightarrow> Inl TypeError
      | _ \<Rightarrow> Inr (butlast ss @
                 [Step (s_mv (last ss)) (s_k (last ss)) (s_steps (last ss))
                       (s_rval (last ss)) (s_op (last ss)) True]))"

text \<open>\<^verbatim>\<open>mv || this.#CHILDREN\<close>: the movement primed by a preceding dot, or else children.\<close>

definition or_CHILDREN :: "movement \<Rightarrow> movement option" where
  "or_CHILDREN mv = Some (if mv = UNDEFINED then CHILDREN else mv)"

text \<open>
  \<^verbatim>\<open>mv || this.CHILDREN\<close>, as the bracket-index branch writes it: the class has no public
  field \<^verbatim>\<open>CHILDREN\<close>, so the right operand is \<^verbatim>\<open>undefined\<close>.
\<close>

definition or_public_CHILDREN :: "movement \<Rightarrow> movement option" where
  "or_public_CHILDREN mv = (if mv = UNDEFINED then None else Some mv)"

text \<open>The locals \<^verbatim>\<open>not\<close> and \<^verbatim>\<open>j\<close> of the bracket-predicate branch.\<close>

definition predicate_not :: "string \<Rightarrow> nat \<Rightarrow> bool" where
  "predicate_not query i = (charCodeAt query (i + 3) = Some (CHR 0x21))"

definition predicate_j :: "string \<Rightarrow> nat \<Rightarrow> nat" where
  "predicate_j query i = i + 3 + (if predicate_not query i then 1 else 0)"

text \<open>
  The loop \<^verbatim>\<open>for (;;)\<close> of \<^verbatim>\<open>#compile\<close>, with the variables \<^verbatim>\<open>steps\<close>, \<^verbatim>\<open>mv\<close> and \<^verbatim>\<open>i\<close> it
  updates. \<open>Inr None\<close> is the \<^verbatim>\<open>return;\<close> of the source, \<open>Inl\<close> an exception. The recursive
  call \<^verbatim>\<open>this.#compile(query, j)\<close> of the bracket predicate is the loop started after the
  anchor at \<open>j\<close> (the query is not empty there).
\<close>

function compile_loop ::
  "platform \<Rightarrow> string \<Rightarrow> step list \<Rightarrow> movement \<Rightarrow> nat \<Rightarrow> error + compiled option" where
  "compile_loop P query steps mv i =
     (if i = length query then compile_end steps i
      else if charCodeAt query i = Some (CHR 0x20) then compile_loop P query steps mv (i + 1)
      else if charCodeAt query i = Some (CHR 0x2E) then
        (if mv \<noteq> UNDEFINED then Inr None
         else if startsWith query ''..'' i then compile_loop P query steps DESCENDANTS (i + 2)
         else compile_loop P query steps CHILDREN (i + 1))
      else if charCodeAt query i \<noteq> Some (CHR 0x5B) then
        (if mv = UNDEFINED then
           (if steps = [] then Inr None
            else compile_end (butlast steps @ [fst (compileExpr P (last steps) query i)])
                   (snd (compileExpr P (last steps) query i)))
         else
           (case consumeUnquotedIdentifier query i of
              None \<Rightarrow> Inr None
            | Some s \<Rightarrow>
                compile_loop P query (steps @ [mk_step (Some mv) (Some (KStr s)) None])
                  UNDEFINED (i + length s)))
      else if startsWith query ''[*]'' i then
        compile_loop P query (steps @ [mk_step (or_CHILDREN mv) (Some (KStr ''*'')) None])
          UNDEFINED (i + 3)
      else if startsWith query [CHR ''['', CHR 0x27] i then
        (case consumeQuotedIdentifier query (i + 2) of
           Inl e \<Rightarrow> Inl e
         | Inr None \<Rightarrow> Inr None
         | Inr (Some (s, i')) \<Rightarrow>
             compile_loop P query (steps @ [mk_step (or_CHILDREN mv) (Some (KStr s)) None])
               UNDEFINED i')
      else if startsWith query ''[?('' i then
        (case compile_loop P query (fst (anchor query (predicate_j query i))) UNDEFINED
                (snd (anchor query (predicate_j query i))) of
           Inl e \<Rightarrow> Inl e
         | Inr None \<Rightarrow> Inr None
         | Inr (Some r) \<Rightarrow>
             if \<not> startsWith query '')]'' (plan_i r) then Inr None
             else
               (case (if predicate_not query i then set_not_last (plan_steps r)
                      else Inr (plan_steps r)) of
                  Inl e \<Rightarrow> Inl e
                | Inr sub \<Rightarrow>
                    compile_loop P query (steps @ [mk_step (or_CHILDREN mv) None (Some sub)])
                      UNDEFINED (plan_i r + 2)))
      else
        (case reIndice_exec (drop i query) of
           None \<Rightarrow> Inr None
         | Some m \<Rightarrow>
             compile_loop P query
               (steps @ [mk_step (or_public_CHILDREN mv)
                           (map_option KNum (parseInt (drop (i + 1) query))) None])
               UNDEFINED (i + length m)))"
  by pat_completeness auto

text \<open>
  Every turn of the loop moves the offset forward, and the plan that a bracket predicate
  compiles ends at or after the offset it started from; with that the loop terminates.
\<close>

lemma consumeUnquotedIdentifier_Some:
  assumes "consumeUnquotedIdentifier query i = Some s"
  shows "s \<noteq> [] \<and> i < length query"
proof -
  from assms have "drop i query \<noteq> []"
    by (auto simp: consumeUnquotedIdentifier_def reUnquotedIdentifier_exec_def)
  then have "i < length query" by simp
  moreover from assms have "s \<noteq> []"
    by (auto simp: consumeUnquotedIdentifier_def reUnquotedIdentifier_exec_def
             split: list.splits if_splits)
  ultimately show ?thesis by simp
qed

lemma consumeQuotedIdentifier_loop_gt:
  "consumeQuotedIdentifier_loop query parts beg e = Inr (Some (s, i')) \<Longrightarrow> e < i'"
proof (induction query parts beg e rule: consumeQuotedIdentifier_loop.induct)
  case (1 query parts beg e)
  note eq = consumeQuotedIdentifier_loop.simps[of query parts beg e]
  show ?case
  proof (cases "length query \<le> e \<or> charCodeAt query e = Some (CHR 0x27)
                \<or> (charCodeAt query e = Some (CHR 0x5C) \<and> e + 1 < length query)")
    case True
    with "1.prems" show ?thesis unfolding eq by (auto split: if_splits)
  next
    case False
    with "1.prems" have "consumeQuotedIdentifier_loop query parts beg (e + 1) = Inr (Some (s, i'))"
      unfolding eq by (simp split: if_splits)
    with False "1.IH" have "e + 1 < i'" by auto
    then show ?thesis by simp
  qed
qed

lemma consumeQuotedIdentifier_gt:
  "consumeQuotedIdentifier query j = Inr (Some (s, i')) \<Longrightarrow> j < i'"
  unfolding consumeQuotedIdentifier_def by (rule consumeQuotedIdentifier_loop_gt)

lemma compileExpr_ge: "i \<le> snd (compileExpr P st query i)"
  by (simp add: compileExpr_def split: option.splits prod.splits)

lemma reIndice_exec_Some: "reIndice_exec s = Some m \<Longrightarrow> m \<noteq> []"
  by (auto simp: reIndice_exec_def Let_def split: list.splits if_splits)

lemma predicate_j_anchor_gt: "i < snd (anchor query (predicate_j query i))"
  by (simp add: anchor_def predicate_j_def)

lemma charCodeAt_Some: "charCodeAt query i = Some c \<Longrightarrow> i < length query"
  by (simp add: charCodeAt_def split: if_splits)

lemma compile_end_ge: "compile_end steps i = Inr (Some r) \<Longrightarrow> plan_i r = i"
  by (auto simp: compile_end_def split: if_splits)

lemma compile_loop_dom_ge:
  "compile_loop_dom (P, query, steps, mv, i) \<Longrightarrow>
   compile_loop P query steps mv i = Inr (Some r) \<Longrightarrow> i \<le> plan_i r"
proof (induction P query steps mv i arbitrary: r rule: compile_loop.pinduct)
  case (1 P query steps mv i)
  note eq = compile_loop.psimps[OF "1.hyps"]
  have ce: "\<And>st j. compile_end st j = Inr (Some r) \<Longrightarrow> plan_i r = j"
    by (rule compile_end_ge)
  from "1.prems" "1.IH" show ?case
    apply (subst (asm) eq)
    apply (simp split: if_split_asm option.split_asm sum.split_asm prod.split_asm)
    subgoal by (drule ce) simp
    subgoal by (drule ce) (simp add: compileExpr_ge)
    subgoal premises p for x2
    proof -
      have "i + length x2 \<le> plan_i r" by (rule p(2)[OF refl]) (rule p)
      then show ?thesis by simp
    qed
    subgoal premises p for x2 x2a x1 x2b
    proof -
      have "x2b \<le> plan_i r" by (rule p(2)[OF refl refl refl]) (rule p)
      moreover have "Suc (Suc i) < x2b" by (rule consumeQuotedIdentifier_gt) (rule p)
      ultimately show ?thesis by simp
    qed
    subgoal premises p for x2 x2a x2b
    proof -
      have "Suc (Suc (plan_i x2a)) \<le> plan_i r" by (rule p(1)[OF refl refl]) (rule p)+
      with p(3) predicate_j_anchor_gt[of i query] show ?thesis by simp
    qed
    subgoal premises p for x2 x2a
    proof -
      have "Suc (Suc (plan_i x2a)) \<le> plan_i r" by (rule p(1)[OF refl refl _ refl]) (rule p)+
      with p(3) predicate_j_anchor_gt[of i query] show ?thesis by simp
    qed
    subgoal premises p for x2
    proof -
      have "i + length x2 \<le> plan_i r" by (rule p(1)[OF refl]) (rule p)
      then show ?thesis by simp
    qed
    done
qed

termination compile_loop
proof (relation "measure (\<lambda>(P, query, steps, mv, i). length query - i)", goal_cases)
  case 1
  then show ?case by simp
next
  case (2 P query steps mv i)
  then show ?case using charCodeAt_Some[of query i] by simp
next
  case (3 P query steps mv i)
  then show ?case using charCodeAt_Some[of query i] by simp
next
  case (4 P query steps mv i)
  then show ?case using charCodeAt_Some[of query i] by simp
next
  case (5 P query steps mv i s)
  then show ?case using consumeUnquotedIdentifier_Some[of query i s] by (simp add: diff_less_mono2)
next
  case (6 P query steps mv i)
  then show ?case using charCodeAt_Some[of query i] by simp
next
  case (7 P query steps mv i b x2 s i')
  then show ?case
    using consumeQuotedIdentifier_gt[of query "i + 2" s i'] charCodeAt_Some[of query i] by simp
next
  case (8 P query steps mv i)
  then show ?case using predicate_j_anchor_gt[of i query] charCodeAt_Some[of query i] by simp
next
  case (9 P query steps mv i b r sub)
  then show ?case
    using predicate_j_anchor_gt[of i query] charCodeAt_Some[of query i]
      compile_loop_dom_ge[of P query "fst (anchor query (predicate_j query i))" UNDEFINED
         "snd (anchor query (predicate_j query i))" r]
    by simp
next
  case (10 P query steps mv i m)
  then show ?case using reIndice_exec_Some[of "drop i query" m] charCodeAt_Some[of query i]
    by (simp add: diff_less_mono2)
qed

declare compile_loop.simps [simp del]

text \<open>\<^verbatim>\<open>#compile(query, i)\<close>\<close>

definition compile_priv :: "platform \<Rightarrow> string \<Rightarrow> nat \<Rightarrow> error + compiled option" where
  "compile_priv P query i =
     (if length query = 0 then Inr None
      else compile_loop P query (fst (anchor query i)) UNDEFINED (snd (anchor query i)))"

section \<open>Properties of values\<close>

function digits_of_nat :: "nat \<Rightarrow> string" where
  "digits_of_nat n =
     (if n < 10 then [char_of (48 + n)]
      else digits_of_nat (n div 10) @ [char_of (48 + n mod 10)])"
  by pat_completeness auto
termination
  by (relation "measure (\<lambda>n. n)") auto

declare digits_of_nat.simps [simp del]

text \<open>The property name that a key stands for: a number is written in decimal.\<close>

definition key_string :: "pkey \<Rightarrow> string" where
  "key_string key =
     (case key of
        KStr s \<Rightarrow> s
      | KNum n \<Rightarrow> (if n < 0 then ''-'' @ digits_of_nat (nat (- n)) else digits_of_nat (nat n)))"

text \<open>
  The array index that a key stands for: a number that is not negative, or its canonical
  decimal spelling.
\<close>

definition array_index :: "pkey \<Rightarrow> nat option" where
  "array_index key =
     (case key of
        KNum n \<Rightarrow> (if 0 \<le> n then Some (nat n) else None)
      | KStr s \<Rightarrow>
          (if s \<noteq> [] \<and> list_all is_digit s \<and> (s = ''0'' \<or> hd s \<noteq> CHR ''0'')
           then Some (nat_of_digits s) else None))"

text \<open>
  The own properties of a value: those of an object, the elements and the length of an
  array, the characters and the length of a string.
\<close>

definition own_prop :: "jsval \<Rightarrow> pkey \<Rightarrow> jsval option" where
  "own_prop obj key =
     (case obj of
        JObj kvs \<Rightarrow> map_of kvs (key_string key)
      | JArr xs \<Rightarrow>
          (case array_index key of
             Some n \<Rightarrow> (if n < length xs then Some (xs ! n) else None)
           | None \<Rightarrow>
               (if key_string key = ''length'' then Some (JNum (of_nat (length xs))) else None))
      | JStr s \<Rightarrow>
          (case array_index key of
             Some n \<Rightarrow> (if n < length s then Some (JStr [s ! n]) else None)
           | None \<Rightarrow>
               (if key_string key = ''length'' then Some (JNum (of_nat (length s))) else None))
      | _ \<Rightarrow> None)"

text \<open>
  \<^verbatim>\<open>obj[key]\<close> on a value that is neither \<^verbatim>\<open>null\<close> nor \<^verbatim>\<open>undefined\<close>: the own property of that
  name, and \<^verbatim>\<open>undefined\<close> when there is none (what the value inherits under that name is not
  modelled, see the first section).
\<close>

definition child :: "jsval \<Rightarrow> pkey \<Rightarrow> jsval" where
  "child obj key = (case own_prop obj key of Some v \<Rightarrow> v | None \<Rightarrow> JUndefined)"

text \<open>\<^verbatim>\<open>obj[key]\<close>: reading a property of \<^verbatim>\<open>null\<close> or \<^verbatim>\<open>undefined\<close> throws.\<close>

definition get_prop :: "jsval \<Rightarrow> pkey \<Rightarrow> error + jsval" where
  "get_prop obj key =
     (if obj = JUndefined \<or> obj = JNull then Inl TypeError else Inr (child obj key))"

text \<open>\<^verbatim>\<open>w instanceof Object\<close>, on the values of the model.\<close>

definition instanceof_Object :: "jsval \<Rightarrow> bool" where
  "instanceof_Object w = (case w of JObj _ \<Rightarrow> True | JArr _ \<Rightarrow> True | _ \<Rightarrow> False)"

text \<open>\<^verbatim>\<open>Array.isArray(v)\<close>\<close>

definition isArray :: "jsval \<Rightarrow> bool" where
  "isArray v = (case v of JArr _ \<Rightarrow> True | _ \<Rightarrow> False)"

text \<open>\<^verbatim>\<open>o instanceof Object && Object.hasOwn(o, k)\<close>\<close>

definition hasOwn :: "jsval \<Rightarrow> pkey \<Rightarrow> bool" where
  "hasOwn obj key = (instanceof_Object obj \<and> own_prop obj key \<noteq> None)"

text \<open>
  The keys that \<^verbatim>\<open>#getDescendants\<close> iterates over for one container: \<^verbatim>\<open>v.keys()\<close> of an
  array, \<^verbatim>\<open>Object.keys(v)\<close> of an object, nothing for any other value.
\<close>

definition keys_of :: "jsval \<Rightarrow> pkey list" where
  "keys_of v =
     (case v of
        JArr xs \<Rightarrow> map (\<lambda>n. KNum (int n)) [0..<length xs]
      | JObj kvs \<Rightarrow> map (\<lambda>kv. KStr (fst kv)) kvs
      | _ \<Rightarrow> [])"

section \<open>Path resolution\<close>

text \<open>The object \<^verbatim>\<open>{ obj, key, value }\<close>, or \<^verbatim>\<open>{ value }\<close> alone, that \<^verbatim>\<open>resolvePath\<close> returns.\<close>

record resolved =
  r_obj :: "jsval option"
  r_key :: "pkey option"
  r_value :: jsval

text \<open>The instance: its private field \<^verbatim>\<open>#compiled\<close> and the property \<^verbatim>\<open>root\<close>.\<close>

record JSONPath =
  jp_compiled :: "compiled option"
  jp_root :: jsval

text \<open>The loop of \<^verbatim>\<open>resolvePath\<close>: \<^verbatim>\<open>obj = obj[path[i]]\<close> along a list of keys.\<close>

fun walk :: "jsval \<Rightarrow> path \<Rightarrow> error + jsval" where
  "walk obj [] = Inr obj"
| "walk obj (key # keys) =
     (case get_prop obj key of Inl e \<Rightarrow> Inl e | Inr v \<Rightarrow> walk v keys)"

definition resolvePath :: "JSONPath \<Rightarrow> path \<Rightarrow> error + resolved" where
  "resolvePath this path =
     (if length path = 0 then Inr \<lparr>r_obj = None, r_key = None, r_value = jp_root this\<rparr>
      else
        (case walk (jp_root this) (butlast path) of
           Inl e \<Rightarrow> Inl e
         | Inr obj \<Rightarrow>
             (case get_prop obj (last path) of
                Inl e \<Rightarrow> Inl e
              | Inr v \<Rightarrow> Inr \<lparr>r_obj = Some obj, r_key = Some (last path), r_value = v\<rparr>)))"

section \<open>Descendants\<close>

text \<open>
  \<^verbatim>\<open>#getDescendants(v, recursive)\<close> returns an iterator object over the entries
  \<^verbatim>\<open>{ obj, key, path }\<close> below \<open>v\<close>. Its state is a stack of frames, one per container on
  the way down, each holding the container and the keys of it that are still to come, and
  the path of the entry produced last; \<open>recursive\<close> is captured by the closure. In the
  model the top of the stack is the head of the list.
\<close>

record iterator =
  it_recursive :: bool
  it_stack :: "(jsval \<times> pkey list) list"
  it_path :: path

text \<open>
  The assignment \<^verbatim>\<open>this.path[n-1] = entry.value\<close>. The index is never beyond the end of the
  array (\<open>iterator_next_entries\<close> below keeps the length of the path between \<open>n - 1\<close> and
  \<open>n\<close>), so that the assignment either overwrites the last element or appends one.
\<close>

definition set_at :: "path \<Rightarrow> nat \<Rightarrow> pkey \<Rightarrow> path" where
  "set_at p i key = (if i < length p then p[i := key] else p @ [key])"

definition getDescendants :: "jsval \<Rightarrow> bool \<Rightarrow> iterator" where
  "getDescendants v recursive =
     \<lparr>it_recursive = recursive,
      it_stack = (if isArray v then [(v, keys_of v)]
                  else if instanceof_Object v then [(v, keys_of v)]
                  else []),
      it_path = []\<rparr>"

text \<open>
  \<^verbatim>\<open>next()\<close>: the entry produced, or \<open>None\<close> when the iterator is done, and the state after
  the call. A frame whose keys are used up is popped, together with the last element of
  the path, and \<^verbatim>\<open>next()\<close> calls itself.
\<close>

function iterator_next :: "iterator \<Rightarrow> (jsval \<times> pkey \<times> path) option \<times> iterator" where
  "iterator_next it =
     (case it_stack it of
        [] \<Rightarrow> (None, it)
      | (obj, keys) # rest \<Rightarrow>
          (case keys of
             [] \<Rightarrow> iterator_next (it\<lparr>it_stack := rest, it_path := butlast (it_path it)\<rparr>)
           | key # keys' \<Rightarrow>
               (Some (obj, key, set_at (it_path it) (length (it_stack it) - 1) key),
                it\<lparr>it_stack :=
                     (if it_recursive it \<and> isArray (child obj key) then
                        (child obj key, keys_of (child obj key)) # (obj, keys') # rest
                      else if it_recursive it \<and> instanceof_Object (child obj key) then
                        (child obj key, keys_of (child obj key)) # (obj, keys') # rest
                      else (obj, keys') # rest),
                   it_path := set_at (it_path it) (length (it_stack it) - 1) key\<rparr>)))"
  by pat_completeness auto
termination
  by (relation "measure (\<lambda>it. length (it_stack it))") auto

declare iterator_next.simps [simp del]

text \<open>
  The work an iterator still has to do: two units for a key that is to come, and the
  weight of the container that this key leads to, one unit for a frame that is to be
  popped.
\<close>

lemma size_child_less:
  assumes "key \<in> set (keys_of v)"
  shows "size (child v key) < size v"
proof (cases v)
  case (JArr xs)
  with assms obtain n where n: "key = KNum (int n)" "n < length xs"
    by (auto simp: keys_of_def)
  then have "child v key = xs ! n"
    by (simp add: JArr child_def own_prop_def array_index_def)
  moreover have "size (xs ! n) \<le> size_list size xs"
    using n(2) by (simp add: size_list_estimation'[OF nth_mem])
  ultimately show ?thesis by (simp add: JArr)
next
  case (JObj kvs)
  with assms obtain k u where k: "key = KStr k" "(k, u) \<in> set kvs"
    by (auto simp: keys_of_def)
  then obtain w where w: "map_of kvs k = Some w"
    by (metis weak_map_of_SomeI)
  then have "(k, w) \<in> set kvs" by (rule map_of_SomeD)
  then have "size_prod (\<lambda>_. 0) size (k, w) \<le> size_list (size_prod (\<lambda>_. 0) size) kvs"
    by (simp add: size_list_estimation')
  moreover have "child v key = w"
    using w by (simp add: JObj k(1) child_def own_prop_def key_string_def)
  ultimately show ?thesis by (simp add: JObj)
qed (use assms in \<open>simp_all add: keys_of_def\<close>)

function weight :: "bool \<Rightarrow> jsval \<Rightarrow> nat" where
  "weight recursive v =
     1 + sum_list (map (\<lambda>key. 2 + (if recursive then weight recursive (child v key) else 0))
                    (keys_of v))"
  by pat_completeness auto
termination
  by (relation "measure (\<lambda>(recursive, v). size v)") (auto simp: size_child_less)

declare weight.simps [simp del]

definition frame_weight :: "bool \<Rightarrow> jsval \<times> pkey list \<Rightarrow> nat" where
  "frame_weight recursive fr =
     1 + sum_list (map (\<lambda>key. 2 + (if recursive then weight recursive (child (fst fr) key) else 0))
                    (snd fr))"

definition iterator_weight :: "iterator \<Rightarrow> nat" where
  "iterator_weight it = sum_list (map (frame_weight (it_recursive it)) (it_stack it))"

lemma frame_weight_keys_of:
  "recursive \<Longrightarrow> frame_weight recursive (v, keys_of v) = weight recursive v"
  by (subst weight.simps) (simp add: frame_weight_def)

lemma frame_weight_Nil: "frame_weight recursive (obj, []) = 1"
  by (simp add: frame_weight_def)

lemma frame_weight_Cons:
  "frame_weight recursive (obj, key # keys) =
     2 + (if recursive then weight recursive (child obj key) else 0)
       + frame_weight recursive (obj, keys)"
  by (simp add: frame_weight_def)

lemma iterator_next_weight:
  "iterator_next it = (Some e, it') \<Longrightarrow> iterator_weight it' < iterator_weight it"
proof (induction it arbitrary: e it' rule: iterator_next.induct)
  case (1 it)
  show ?case
  proof (cases "it_stack it")
    case Nil
    with "1.prems" show ?thesis by (simp add: iterator_next.simps)
  next
    case (Cons fr rest)
    obtain obj keys where fr: "fr = (obj, keys)" by (cases fr)
    show ?thesis
    proof (cases keys)
      case Nil
      with "1.prems" Cons fr
      have "iterator_next (it\<lparr>it_stack := rest, it_path := butlast (it_path it)\<rparr>) = (Some e, it')"
        by (simp add: iterator_next.simps[of it])
      from "1.IH"[OF Cons fr[symmetric] Nil this]
      show ?thesis using Cons fr Nil by (simp add: iterator_weight_def frame_weight_Nil)
    next
      case (Cons key keys')
      with "1.prems" \<open>it_stack it = fr # rest\<close> fr show ?thesis
        by (auto simp: iterator_next.simps[of it] iterator_weight_def frame_weight_keys_of
                       frame_weight_Cons split: if_splits)
    qed
  qed
qed

text \<open>
  The evaluator runs every iterator to its end (\<^verbatim>\<open>Array.from\<close>, or a \<^verbatim>\<open>for ... of\<close> loop
  that is never left early) and does not change the document meanwhile, so that it sees
  the list of the entries that \<^verbatim>\<open>next()\<close> produces until the iterator is done.
\<close>

function Array_from :: "iterator \<Rightarrow> (jsval \<times> pkey \<times> path) list" where
  "Array_from it =
     (case iterator_next it of
        (None, it') \<Rightarrow> []
      | (Some e, it') \<Rightarrow> e # Array_from it')"
  by pat_completeness auto
termination
  by (relation "measure iterator_weight") (auto dest: iterator_next_weight[OF sym])

declare Array_from.simps [simp del]

definition descendants :: "jsval \<Rightarrow> bool \<Rightarrow> (jsval \<times> pkey \<times> path) list" where
  "descendants v recursive = Array_from (getDescendants v recursive)"

text \<open>
  The same list by recursion on the value: an entry comes before the entries of the
  container it leads to, the keys of one container come in the order of \<open>keys_of\<close>, and
  the path of an entry is the list of the keys from \<open>v\<close> down to it.
\<close>

function preorder :: "jsval \<Rightarrow> bool \<Rightarrow> (jsval \<times> pkey \<times> path) list" where
  "preorder v recursive =
     concat (map (\<lambda>key.
        (v, key, [key]) #
        (if recursive
         then map (\<lambda>e. (fst e, fst (snd e), key # snd (snd e)))
                (preorder (child v key) recursive)
         else []))
      (keys_of v))"
  by pat_completeness auto
termination
  by (relation "measure (\<lambda>(v, recursive). size v)") (auto simp: size_child_less)

declare preorder.simps [simp del]

text \<open>
  What a state of the iterator will still produce: the entries of each frame, from the
  top of the stack down, where the frame at depth \<open>d\<close> continues the first \<open>d - 1\<close> keys
  of the path.
\<close>

definition frame_entries ::
  "bool \<Rightarrow> path \<Rightarrow> jsval \<times> pkey list \<Rightarrow> (jsval \<times> pkey \<times> path) list" where
  "frame_entries recursive pre fr =
     concat (map (\<lambda>key.
        (fst fr, key, pre @ [key]) #
        (if recursive
         then map (\<lambda>e. (fst e, fst (snd e), pre @ key # snd (snd e)))
                (preorder (child (fst fr) key) recursive)
         else []))
      (snd fr))"

fun stack_entries ::
  "bool \<Rightarrow> path \<Rightarrow> (jsval \<times> pkey list) list \<Rightarrow> (jsval \<times> pkey \<times> path) list" where
  "stack_entries recursive p [] = []"
| "stack_entries recursive p (fr # rest) =
     frame_entries recursive (take (length rest) p) fr @ stack_entries recursive p rest"

definition iterator_inv :: "iterator \<Rightarrow> bool" where
  "iterator_inv it \<longleftrightarrow>
     it_stack it = [] \<or>
     (length (it_stack it) - 1 \<le> length (it_path it) \<and>
      length (it_path it) \<le> length (it_stack it))"

lemma stack_entries_cong:
  "take (length st - 1) p = take (length st - 1) p' \<Longrightarrow>
   stack_entries recursive p st = stack_entries recursive p' st"
proof (induction st)
  case Nil
  show ?case by simp
next
  case (Cons fr rest)
  from Cons.prems have t: "take (length rest) p = take (length rest) p'" by simp
  have "take (length rest - 1) (take (length rest) p) =
        take (length rest - 1) (take (length rest) p')"
    by (simp only: t)
  then have "take (length rest - 1) p = take (length rest - 1) p'"
    by (simp add: min_def)
  from Cons.IH[OF this] t show ?case by simp
qed

lemma frame_entries_Cons:
  "frame_entries recursive pre (obj, key # keys) =
     (obj, key, pre @ [key]) #
     (if recursive
      then map (\<lambda>e. (fst e, fst (snd e), pre @ key # snd (snd e)))
             (preorder (child obj key) recursive)
      else []) @
     frame_entries recursive pre (obj, keys)"
  by (simp add: frame_entries_def)

lemma frame_entries_keys_of:
  "frame_entries recursive pre (v, keys_of v) =
     map (\<lambda>e. (fst e, fst (snd e), pre @ snd (snd e))) (preorder v recursive)"
  by (subst preorder.simps)
     (simp add: frame_entries_def map_concat comp_def if_distrib cong: if_cong)

lemma preorder_scalar:
  "\<not> instanceof_Object v \<Longrightarrow> preorder v recursive = []"
  by (subst preorder.simps) (cases v; simp add: keys_of_def instanceof_Object_def)

lemma set_at_top:
  "n \<le> length p \<Longrightarrow> length p \<le> Suc n \<Longrightarrow> set_at p n key = take n p @ [key]"
  by (cases "n < length p")
     (simp_all add: set_at_def upd_conv_take_nth_drop)

lemma iterator_next_entries:
  "iterator_inv it \<Longrightarrow>
   (case iterator_next it of
      (None, it') \<Rightarrow> stack_entries (it_recursive it) (it_path it) (it_stack it) = []
    | (Some e, it') \<Rightarrow>
        iterator_inv it' \<and> it_recursive it' = it_recursive it \<and>
        stack_entries (it_recursive it) (it_path it) (it_stack it) =
          e # stack_entries (it_recursive it) (it_path it') (it_stack it'))"
proof (induction it rule: iterator_next.induct)
  case (1 it)
  obtain recursive where r: "it_recursive it = recursive" by simp
  show ?case
  proof (cases "it_stack it")
    case Nil
    then show ?thesis by (simp add: iterator_next.simps[of it])
  next
    case (Cons fr rest)
    obtain obj keys where fr: "fr = (obj, keys)" by (cases fr)
    from "1.prems" Cons
    have len: "length rest \<le> length (it_path it)" "length (it_path it) \<le> Suc (length rest)"
      by (simp_all add: iterator_inv_def)
    show ?thesis
    proof (cases keys)
      case Nil
      let ?it = "it\<lparr>it_stack := rest, it_path := butlast (it_path it)\<rparr>"
      have nx: "iterator_next it = iterator_next ?it"
        using Cons fr Nil by (simp add: iterator_next.simps[of it])
      have inv: "iterator_inv ?it" using len by (auto simp: iterator_inv_def)
      have "take (length rest - 1) (butlast (it_path it)) = take (length rest - 1) (it_path it)"
        using len by (cases "rest = []") (simp_all add: butlast_conv_take min_def)
      from stack_entries_cong[OF this]
      have "stack_entries (it_recursive it) (it_path it) (it_stack it) =
            stack_entries (it_recursive ?it) (it_path ?it) (it_stack ?it)"
        using Cons fr Nil by (simp add: frame_entries_def)
      with "1.IH"[OF Cons fr[symmetric] Nil inv] nx show ?thesis
        by (simp split: prod.splits option.splits)
    next
      case (Cons key keys')
      define v where "v = child obj key"
      define below where "below = (obj, keys') # rest"
      define q where "q = take (length rest) (it_path it) @ [key]"
      have sa: "set_at (it_path it) (length rest) key = q"
        using len by (simp add: set_at_top q_def)
      have lq: "length q = Suc (length rest)"
        using len by (simp add: q_def)
      have rest_eq: "stack_entries recursive q rest = stack_entries recursive (it_path it) rest"
        by (rule stack_entries_cong) (use len in \<open>simp add: min_def q_def\<close>)
      have tk: "take (length rest) q = take (length rest) (it_path it)"
        using len by (simp add: q_def)
      have tk1: "take (Suc (length rest)) q = q"
        using lq by simp
      have pre: "\<And>ks. take (length rest) (it_path it) @ key # ks = q @ ks"
        by (simp add: q_def)
      have arr: "isArray v \<Longrightarrow> instanceof_Object v"
        by (cases v) (simp_all add: isArray_def instanceof_Object_def)
      have nx: "iterator_next it =
                  (Some (obj, key, q),
                   it\<lparr>it_stack := (if recursive \<and> instanceof_Object v
                                   then (v, keys_of v) # below else below),
                      it_path := q\<rparr>)"
        using \<open>it_stack it = fr # rest\<close> fr Cons arr
        by (auto simp: iterator_next.simps[of it] sa v_def[symmetric] below_def r)
      have cur: "stack_entries recursive (it_path it) (it_stack it) =
                 (obj, key, q) #
                 (if recursive
                  then map (\<lambda>e. (fst e, fst (snd e), q @ snd (snd e))) (preorder v recursive)
                  else []) @
                 frame_entries recursive (take (length rest) (it_path it)) (obj, keys') @
                 stack_entries recursive (it_path it) rest"
        using \<open>it_stack it = fr # rest\<close> fr Cons
        by (simp add: frame_entries_Cons pre v_def r)
      have low: "stack_entries recursive q below =
                 frame_entries recursive (take (length rest) (it_path it)) (obj, keys') @
                 stack_entries recursive (it_path it) rest"
        by (simp add: below_def tk rest_eq)
      show ?thesis
      proof (cases "recursive \<and> instanceof_Object v")
        case True
        have "length below = Suc (length rest)" by (simp add: below_def)
        then have "stack_entries recursive q ((v, keys_of v) # below) =
                map (\<lambda>e. (fst e, fst (snd e), q @ snd (snd e))) (preorder v recursive) @
                stack_entries recursive q below"
          by (simp add: tk1 frame_entries_keys_of)
        moreover from True have c: "(recursive \<and> instanceof_Object v) = True" by simp
        moreover from True have recursive by simp
        ultimately show ?thesis
          using cur nx low lq unfolding c if_True r
          by (simp add: iterator_inv_def below_def r)
      next
        case False
        then have none: "(if recursive
                  then map (\<lambda>e. (fst e, fst (snd e), q @ snd (snd e))) (preorder v recursive)
                  else []) = []"
          by (auto simp: preorder_scalar)
        from False have c: "(recursive \<and> instanceof_Object v) = False" by simp
        from cur nx low lq show ?thesis
          unfolding none c if_False r
          by (simp add: iterator_inv_def below_def r)
      qed
    qed
  qed
qed

lemma Array_from_entries:
  "iterator_inv it \<Longrightarrow>
   Array_from it = stack_entries (it_recursive it) (it_path it) (it_stack it)"
proof (induction it rule: Array_from.induct)
  case (1 it)
  obtain r it' where nx: "iterator_next it = (r, it')" by (cases "iterator_next it")
  show ?case
  proof (cases r)
    case None
    with iterator_next_entries[OF "1.prems"] nx show ?thesis
      by (simp add: Array_from.simps[of it])
  next
    case (Some e)
    with iterator_next_entries[OF "1.prems"] nx
    have inv: "iterator_inv it'" and same: "it_recursive it' = it_recursive it"
      and eq: "stack_entries (it_recursive it) (it_path it) (it_stack it) =
               e # stack_entries (it_recursive it) (it_path it') (it_stack it')"
      by simp_all
    from "1.IH"[OF nx[symmetric] _ inv] Some same
    have "Array_from it' = stack_entries (it_recursive it) (it_path it') (it_stack it')"
      by simp
    with eq nx Some show ?thesis by (simp add: Array_from.simps[of it])
  qed
qed

lemma descendants_preorder: "descendants v recursive = preorder v recursive"
proof (cases "instanceof_Object v")
  case True
  then have st: "getDescendants v recursive =
                   \<lparr>it_recursive = recursive, it_stack = [(v, keys_of v)], it_path = []\<rparr>"
    by (simp add: getDescendants_def)
  have "iterator_inv (getDescendants v recursive)" by (simp add: st iterator_inv_def)
  from Array_from_entries[OF this] show ?thesis
    by (simp add: descendants_def st frame_entries_keys_of)
next
  case False
  then have st: "getDescendants v recursive =
                   \<lparr>it_recursive = recursive, it_stack = [], it_path = []\<rparr>"
    by (cases v) (simp_all add: getDescendants_def isArray_def instanceof_Object_def)
  have "iterator_inv (getDescendants v recursive)" by (simp add: st iterator_inv_def)
  from Array_from_entries[OF this] False show ?thesis
    by (simp add: descendants_def st preorder_scalar)
qed

lemma descendants_unfold:
  "descendants v recursive =
     concat (map (\<lambda>key.
        (v, key, [key]) #
        (if recursive
         then map (\<lambda>e. (fst e, fst (snd e), key # snd (snd e)))
                (descendants (child v key) recursive)
         else []))
      (keys_of v))"
  unfolding descendants_preorder by (rule preorder.simps)

lemma descendants_induct:
  assumes "\<And>v recursive.
      (\<And>key. key \<in> set (keys_of v) \<Longrightarrow> recursive \<Longrightarrow> P (child v key) recursive) \<Longrightarrow>
      P v recursive"
  shows "P v recursive"
proof (induction v recursive rule: preorder.induct)
  case (1 v recursive)
  show ?case by (rule assms) (rule "1.IH")
qed

section \<open>The evaluator\<close>

text \<open>
  A loop that pushes onto one output list: the paths pushed for each element in turn,
  unless an iteration throws.
\<close>

fun collect :: "('a \<Rightarrow> error + 'b list) \<Rightarrow> 'a list \<Rightarrow> error + 'b list" where
  "collect f [] = Inr []"
| "collect f (x # xs) =
     (case f x of
        Inl e \<Rightarrow> Inl e
      | Inr ys \<Rightarrow> (case collect f xs of Inl e \<Rightarrow> Inl e | Inr zs \<Rightarrow> Inr (ys @ zs)))"

lemma collect_cong [fundef_cong]:
  "xs = ys \<Longrightarrow> (\<And>x. x \<in> set ys \<Longrightarrow> f x = g x) \<Longrightarrow> collect f xs = collect g ys"
  by (induction ys arbitrary: xs) (auto split: sum.splits)

text \<open>
  The conversion of a value to a primitive value, which the relational operators apply
  to both operands and the conversion to a string applies to an object, calls the
  methods \<^verbatim>\<open>valueOf\<close> and \<^verbatim>\<open>toString\<close> of the value and throws a \<^verbatim>\<open>TypeError\<close> when neither
  gives a primitive value. An object of a document inherits both: \<^verbatim>\<open>valueOf\<close> returns the
  object itself, \<^verbatim>\<open>toString\<close> returns a string; but an own property \<^verbatim>\<open>toString\<close>, which in a
  document is data and cannot be called, hides the inherited method, and the conversion
  throws. The \<^verbatim>\<open>toString\<close> of an array joins the strings of its elements, \<^verbatim>\<open>null\<close> and
  \<^verbatim>\<open>undefined\<close> counting as the empty string. \<open>coercible v\<close> says that the conversion of \<open>v\<close>
  returns.
\<close>

fun coercible :: "jsval \<Rightarrow> bool" where
  "coercible (JObj kvs) = (map_of kvs ''toString'' = None)"
| "coercible (JArr xs) = list_all coercible xs"
| "coercible v = True"

text \<open>The coercion of a template literal, and of the argument of \<^verbatim>\<open>startsWith\<close>.\<close>

definition js_string :: "platform \<Rightarrow> jsval \<Rightarrow> error + string" where
  "js_string P v =
     (if \<not> coercible v then Inl TypeError
      else Inr (case v of JStr s \<Rightarrow> s | _ \<Rightarrow> to_string P v))"

text \<open>The relational comparison behind \<^verbatim>\<open><\<close>, \<^verbatim>\<open><=\<close>, \<^verbatim>\<open>>\<close> and \<^verbatim>\<open>>=\<close>.\<close>

definition IsLessThan :: "platform \<Rightarrow> jsval \<Rightarrow> jsval \<Rightarrow> error + bool option" where
  "IsLessThan P x y =
     (if \<not> coercible x \<or> \<not> coercible y then Inl TypeError
      else Inr (case (x, y) of
                  (JNum a, JNum b) \<Rightarrow> Some (a < b)
                | _ \<Rightarrow> less_than P x y))"

text \<open>
  \<^verbatim>\<open>x === y\<close> between a value of the document and a literal of the plan: two objects are
  equal only when they are the same object, which these never are.
\<close>

definition strict_equals :: "jsval \<Rightarrow> jsval \<Rightarrow> bool" where
  "strict_equals x y = (\<not> instanceof_Object x \<and> \<not> instanceof_Object y \<and> x = y)"

text \<open>
  The \<^verbatim>\<open>switch ( step.op )\<close> of \<^verbatim>\<open>#evaluateExpr\<close>: the outcome, or the exception of a
  conversion.
\<close>

definition compared :: "(bool option \<Rightarrow> bool) \<Rightarrow> error + bool option \<Rightarrow> error + bool" where
  "compared f res = (case res of Inl e \<Rightarrow> Inl e | Inr r \<Rightarrow> Inr (f r))"

definition string_test ::
  "platform \<Rightarrow> (string \<Rightarrow> string \<Rightarrow> bool) \<Rightarrow> jsval \<Rightarrow> jsval \<Rightarrow> error + bool" where
  "string_test P f v rval =
     (case js_string P v of
        Inl e \<Rightarrow> Inl e
      | Inr s \<Rightarrow> (case js_string P rval of Inl e \<Rightarrow> Inl e | Inr t \<Rightarrow> Inr (f t s)))"

definition outcome_of ::
  "platform \<Rightarrow> string option \<Rightarrow> jsval \<Rightarrow> jsval \<Rightarrow> bool \<Rightarrow> error + bool" where
  "outcome_of P opr v rval has =
     (if opr = Some ''=='' then Inr (strict_equals v rval)
      else if opr = Some ''!='' then Inr (\<not> strict_equals v rval)
      else if opr = Some ''<'' then compared (\<lambda>r. r = Some True) (IsLessThan P v rval)
      else if opr = Some ''<='' then compared (\<lambda>r. r = Some False) (IsLessThan P rval v)
      else if opr = Some ''>'' then compared (\<lambda>r. r = Some True) (IsLessThan P rval v)
      else if opr = Some ''>='' then compared (\<lambda>r. r = Some False) (IsLessThan P v rval)
      else if opr = Some ''^='' then string_test P prefix v rval
      else if opr = Some ''$='' then string_test P suffix v rval
      else if opr = Some ''*='' then string_test P sublist v rval
      else Inr has)"

text \<open>
  \<^verbatim>\<open>#evaluateExpr(step, path, out)\<close>: the result is what the call pushes onto \<^verbatim>\<open>out\<close>. A
  resolution without \<^verbatim>\<open>obj\<close> leaves \<^verbatim>\<open>o\<close> undefined, and \<^verbatim>\<open>o[k]\<close> throws.
\<close>

definition evaluateExpr :: "platform \<Rightarrow> JSONPath \<Rightarrow> step \<Rightarrow> path \<Rightarrow> error + path list" where
  "evaluateExpr P this st path =
     (case resolvePath this path of
        Inl e \<Rightarrow> Inl e
      | Inr r \<Rightarrow>
          (case (r_obj r, r_key r) of
             (Some obj, Some key) \<Rightarrow>
               (case get_prop obj key of
                  Inl e \<Rightarrow> Inl e
                | Inr v \<Rightarrow>
                    if s_op st \<noteq> None \<and> \<not> hasOwn obj key then Inr []
                    else
                      (case outcome_of P (s_op st) v
                              (case s_rval st of Some rv \<Rightarrow> rv | None \<Rightarrow> JUndefined)
                              (hasOwn obj key) of
                         Inl e \<Rightarrow> Inl e
                       | Inr outcome \<Rightarrow> if outcome = s_not st then Inr [] else Inr [path]))
           | _ \<Rightarrow> Inl TypeError))"

text \<open>\<^verbatim>\<open>if ( k )\<close>: an absent key, the empty string and zero are falsy.\<close>

definition truthy_key :: "pkey option \<Rightarrow> bool" where
  "truthy_key key =
     (case key of None \<Rightarrow> False | Some (KStr s) \<Rightarrow> s \<noteq> [] | Some (KNum n) \<Rightarrow> n \<noteq> 0)"

text \<open>
  The paths that the branch \<^verbatim>\<open>typeof k === 'number'\<close> or its last \<^verbatim>\<open>else\<close> hands to
  \<^verbatim>\<open>#evaluateExpr\<close> before the descendants are looked at; \<open>None\<close> is a \<^verbatim>\<open>continue\<close>. (No
  step of a compiled plan has an array as its key, so the branch \<^verbatim>\<open>Array.isArray(k)\<close> has
  no counterpart here.)
\<close>

definition keyed_paths :: "path \<Rightarrow> jsval \<Rightarrow> pkey \<Rightarrow> path list option" where
  "keyed_paths pathin v key =
     (case key of
        KNum n \<Rightarrow>
          (case v of
             JArr xs \<Rightarrow>
               (let len = int (length xs); i = (if n \<ge> 0 then n else len + n)
                in if i < 0 then None
                   else if i \<ge> len then None
                   else Some [pathin @ [KNum i]])
           | _ \<Rightarrow> None)
      | KStr s \<Rightarrow> Some [pathin @ [key]])"

text \<open>The branch \<^verbatim>\<open>if ( k )\<close> of \<^verbatim>\<open>#getMatches\<close> for one path of \<^verbatim>\<open>listin\<close>.\<close>

definition getMatches_key ::
  "platform \<Rightarrow> JSONPath \<Rightarrow> step \<Rightarrow> path \<Rightarrow> jsval \<Rightarrow> pkey \<Rightarrow> error + path list" where
  "getMatches_key P this st pathin v key =
     (if key = KStr ''*'' then
        collect (\<lambda>e. evaluateExpr P this st (pathin @ snd (snd e)))
          (descendants v (s_mv st = Some DESCENDANTS))
      else
        (case keyed_paths pathin v key of
           None \<Rightarrow> Inr []
         | Some ps \<Rightarrow>
             (case collect (evaluateExpr P this st) ps of
                Inl e \<Rightarrow> Inl e
              | Inr out1 \<Rightarrow>
                  if s_mv st \<noteq> Some DESCENDANTS then Inr out1
                  else
                    (case collect (\<lambda>e.
                             if \<not> instanceof_Object (child (fst e) (fst (snd e))) then Inr []
                             else if \<not> hasOwn (child (fst e) (fst (snd e))) key then Inr []
                             else evaluateExpr P this st (pathin @ snd (snd e) @ [key]))
                           (descendants v True) of
                       Inl e \<Rightarrow> Inl e
                     | Inr out2 \<Rightarrow> Inr (out1 @ out2)))))"

text \<open>
  The branch \<^verbatim>\<open>if ( steps )\<close> of \<^verbatim>\<open>#getMatches\<close> for one path of \<^verbatim>\<open>listin\<close>; \<open>ev\<close> stands for
  \<^verbatim>\<open>this.#evaluate(steps, _)\<close>, the evaluation of the nested plan from a given path.
\<close>

definition nested_matches ::
  "(path \<Rightarrow> error + path list) \<Rightarrow> path \<Rightarrow> jsval \<Rightarrow> bool \<Rightarrow> error + path list" where
  "nested_matches ev pathin v recursive =
     (case (if \<not> isArray v then
              (case ev pathin of
                 Inl e \<Rightarrow> Inl e
               | Inr rs \<Rightarrow> Inr (if length rs \<noteq> 0 then [pathin] else []))
            else Inr []) of
        Inl e \<Rightarrow> Inl e
      | Inr out1 \<Rightarrow>
          if \<not> isArray v \<and> \<not> recursive then Inr out1
          else
            (case collect (\<lambda>e.
                     if isArray (child (fst e) (fst (snd e))) then Inr []
                     else
                       (case ev (pathin @ snd (snd e)) of
                          Inl e \<Rightarrow> Inl e
                        | Inr rs \<Rightarrow> Inr (if length rs \<noteq> 0 then [pathin @ snd (snd e)] else [])))
                   (descendants v recursive) of
               Inl e \<Rightarrow> Inl e
             | Inr out2 \<Rightarrow> Inr (out1 @ out2)))"

lemma nested_matches_cong [fundef_cong]:
  assumes "pathin = pathin'" "v = v'" "recursive = recursive'"
    and "\<not> isArray v' \<Longrightarrow> ev pathin' = ev' pathin'"
    and "\<And>e. e \<in> set (descendants v' recursive') \<Longrightarrow>
           ev (pathin' @ snd (snd e)) = ev' (pathin' @ snd (snd e))"
  shows "nested_matches ev pathin v recursive = nested_matches ev' pathin' v' recursive'"
proof -
  have "collect (\<lambda>e.
           if isArray (child (fst e) (fst (snd e))) then Inr []
           else
             (case ev (pathin' @ snd (snd e)) of
                Inl e \<Rightarrow> Inl e
              | Inr rs \<Rightarrow> Inr (if length rs \<noteq> 0 then [pathin' @ snd (snd e)] else [])))
         (descendants v' recursive') =
        collect (\<lambda>e.
           if isArray (child (fst e) (fst (snd e))) then Inr []
           else
             (case ev' (pathin' @ snd (snd e)) of
                Inl e \<Rightarrow> Inl e
              | Inr rs \<Rightarrow> Inr (if length rs \<noteq> 0 then [pathin' @ snd (snd e)] else [])))
         (descendants v' recursive')"
    by (rule collect_cong) (simp_all add: assms(5))
  note c = this
  show ?thesis
  proof (cases "isArray v'")
    case True
    then show ?thesis unfolding nested_matches_def assms(1-3) c by simp
  next
    case False
    with assms(4) have "ev pathin' = ev' pathin'" by simp
    then show ?thesis unfolding nested_matches_def assms(1-3) c by simp
  qed
qed

text \<open>
  \<^verbatim>\<open>#evaluate(steps, pathin)\<close>, its loop over the steps with the variable \<^verbatim>\<open>resultset\<close>, and
  \<^verbatim>\<open>#getMatches(listin, step)\<close>, whose loop body is the function given to \<open>collect\<close>.
\<close>

lemma size_s_steps_less: "s_steps st = Some sub \<Longrightarrow> size_list size sub < size st"
  by (cases st) simp

function evaluate_priv :: "platform \<Rightarrow> JSONPath \<Rightarrow> step list \<Rightarrow> path \<Rightarrow> error + path list"
  and evaluate_loop ::
    "platform \<Rightarrow> JSONPath \<Rightarrow> step list \<Rightarrow> path \<Rightarrow> path list \<Rightarrow> error + path list"
  and getMatches :: "platform \<Rightarrow> JSONPath \<Rightarrow> path list \<Rightarrow> step \<Rightarrow> error + path list" where
  "evaluate_priv P this steps pathin = evaluate_loop P this steps pathin []"
| "evaluate_loop P this [] pathin resultset = Inr resultset"
| "evaluate_loop P this (st # rest) pathin resultset =
     (if s_mv st = Some ROOT then evaluate_loop P this rest pathin [[]]
      else if s_mv st = Some CURRENT then evaluate_loop P this rest pathin [pathin]
      else if s_mv st = Some CHILDREN \<or> s_mv st = Some DESCENDANTS then
        (case getMatches P this resultset st of
           Inl e \<Rightarrow> Inl e
         | Inr rs \<Rightarrow> evaluate_loop P this rest pathin rs)
      else evaluate_loop P this rest pathin resultset)"
| "getMatches P this listin st =
     collect (\<lambda>pathin.
        case resolvePath this pathin of
          Inl e \<Rightarrow> Inl e
        | Inr r \<Rightarrow>
            if r_value r = JNull then Inr []
            else if r_value r = JUndefined then Inr []
            else if truthy_key (s_k st) then
              (case s_k st of
                 Some key \<Rightarrow> getMatches_key P this st pathin (r_value r) key
               | None \<Rightarrow> Inr [])
            else
              (case s_steps st of
                 None \<Rightarrow> Inr []
               | Some sub \<Rightarrow>
                   nested_matches (\<lambda>p. evaluate_priv P this sub p) pathin (r_value r)
                     (s_mv st = Some DESCENDANTS)))
      listin"
  by pat_completeness auto
termination
  by (relation "measure (\<lambda>x. case x of
          Inl (P, this, steps, pathin) \<Rightarrow> 2 * size_list size steps + 1
        | Inr (Inl (P, this, steps, pathin, resultset)) \<Rightarrow> 2 * size_list size steps
        | Inr (Inr (P, this, listin, st)) \<Rightarrow> 2 * size st + 1)")
     (auto dest: size_s_steps_less)

declare getMatches.simps [simp del]

section \<open>The public methods\<close>

text \<open>
  A method that writes to the instance returns the instance after the call next to its
  result. A fresh instance has no compiled plan and no \<^verbatim>\<open>root\<close> property.
\<close>

definition new_JSONPath :: JSONPath where
  "new_JSONPath = \<lparr>jp_compiled = None, jp_root = JUndefined\<rparr>"

definition compile :: "platform \<Rightarrow> JSONPath \<Rightarrow> string \<Rightarrow> error + (nat \<times> JSONPath)" where
  "compile P this query =
     (case compile_priv P query 0 of
        Inl e \<Rightarrow> Inl e
      | Inr c \<Rightarrow>
          Inr (case c of Some r \<Rightarrow> plan_i r | None \<Rightarrow> 0, this\<lparr>jp_compiled := c\<rparr>))"

definition create :: "platform \<Rightarrow> string \<Rightarrow> error + JSONPath" where
  "create P query =
     (case compile P new_JSONPath query of Inl e \<Rightarrow> Inl e | Inr res \<Rightarrow> Inr (snd res))"

definition evaluate :: "platform \<Rightarrow> JSONPath \<Rightarrow> jsval \<Rightarrow> error + (path list \<times> JSONPath)" where
  "evaluate P this rootv =
     (case jp_compiled this of
        None \<Rightarrow> Inr ([], this)
      | Some c \<Rightarrow>
          (case evaluate_priv P (this\<lparr>jp_root := rootv\<rparr>) (plan_steps c) [] of
             Inl e \<Rightarrow> Inl e
           | Inr paths \<Rightarrow> Inr (paths, this\<lparr>jp_root := rootv\<rparr>)))"

text \<open>\<^verbatim>\<open>JSONPath.create(query).evaluate(root)\<close>, the paths only.\<close>

definition query_paths :: "platform \<Rightarrow> string \<Rightarrow> jsval \<Rightarrow> error + path list" where
  "query_paths P query rootv =
     (case create P query of
        Inl e \<Rightarrow> Inl e
      | Inr this \<Rightarrow>
          (case evaluate P this rootv of Inl e \<Rightarrow> Inl e | Inr res \<Rightarrow> Inr (fst res)))"

section \<open>Notions used in the statements\<close>

text \<open>
  The definitions of this section are not part of the program. They name what the
  statements below talk about.
\<close>

text \<open>
  The eight cases that the loop of \<^verbatim>\<open>#compile\<close> tells apart at an offset, in the order of its
  tests; and the same result of a compilation or of a quoted key one character further to
  the right.
\<close>

datatype token = T_end | T_space | T_dot | T_other | T_star | T_quoted | T_predicate | T_index

definition token_at :: "string \<Rightarrow> nat \<Rightarrow> token" where
  "token_at query i =
     (if i = length query then T_end
      else if charCodeAt query i = Some (CHR 0x20) then T_space
      else if charCodeAt query i = Some (CHR 0x2E) then T_dot
      else if charCodeAt query i \<noteq> Some (CHR 0x5B) then T_other
      else if startsWith query ''[*]'' i then T_star
      else if startsWith query [CHR ''['', CHR 0x27] i then T_quoted
      else if startsWith query ''[?('' i then T_predicate
      else T_index)"

definition shift_plan :: "error + compiled option \<Rightarrow> error + compiled option" where
  "shift_plan res =
     (case res of
        Inl e \<Rightarrow> Inl e
      | Inr None \<Rightarrow> Inr None
      | Inr (Some r) \<Rightarrow> Inr (Some (r\<lparr>plan_i := Suc (plan_i r)\<rparr>)))"

definition shift_quoted :: "error + (string \<times> nat) option \<Rightarrow> error + (string \<times> nat) option" where
  "shift_quoted res =
     (case res of
        Inl e \<Rightarrow> Inl e
      | Inr None \<Rightarrow> Inr None
      | Inr (Some (s, i)) \<Rightarrow> Inr (Some (s, Suc i)))"

text \<open>
  A value is nullish when it is \<^verbatim>\<open>null\<close> or \<^verbatim>\<open>undefined\<close>. A path is resolvable in an instance
  when the loop of \<^verbatim>\<open>resolvePath\<close> can follow all of it from the root without reading a
  property of a nullish value.

  \<open>shape_mismatch\<close> follows the words of the specification: a node has the wrong shape for
  a step when it is \<^verbatim>\<open>null\<close> or \<^verbatim>\<open>undefined\<close>, when the step indexes and the node is not an
  array, or when the step names a key that the node does not own (for a step that looks
  at the children only and is not negated).
\<close>

definition nullish :: "jsval \<Rightarrow> bool" where
  "nullish v = (v = JUndefined \<or> v = JNull)"

definition resolvable :: "JSONPath \<Rightarrow> path \<Rightarrow> bool" where
  "resolvable this p = (\<exists>v. walk (jp_root this) p = Inr v)"


text \<open>
  A value is plain when it and every value below it convert to a primitive value: no
  object in it has an own property \<^verbatim>\<open>toString\<close>. A plan is plain when each of its literals
  converts, the literals of its nested plans included.
\<close>

fun plain :: "jsval \<Rightarrow> bool" where
  "plain (JObj kvs) = (map_of kvs ''toString'' = None \<and> list_all (\<lambda>kv. plain (snd kv)) kvs)"
| "plain (JArr xs) = list_all plain xs"
| "plain v = True"

function plain_step :: "step \<Rightarrow> bool" where
  "plain_step st =
     ((case s_rval st of None \<Rightarrow> True | Some rv \<Rightarrow> coercible rv) \<and>
      (case s_steps st of None \<Rightarrow> True | Some sub \<Rightarrow> list_all plain_step sub))"
  by pat_completeness auto
termination
proof (relation "measure size")
  show "wf (measure size)" by simp
next
  fix st :: step and sub z
  assume "s_steps st = Some sub" "z \<in> set sub"
  then have "size z \<le> size_list size sub" "size_list size sub < size st"
    by (simp_all add: size_list_estimation' size_s_steps_less)
  then show "(z, st) \<in> measure size" by simp
qed

declare plain_step.simps [simp del]


text \<open>
  The nodes of a document are the document itself, with the empty path, and the values
  of the entries of its descendants, each with the path of its entry. \<open>own_chain v q\<close> is
  the value that the keys of \<open>q\<close> lead to from \<open>v\<close>, each key being one of the keys of the
  container it is applied to; \<open>own_value v q\<close> is the same for keys that are own properties,
  enumerable or not. An identifier is a word of the first alternative of
  \<^verbatim>\<open>#reUnquotedIdentifier\<close>.
\<close>

definition nodes :: "jsval \<Rightarrow> (path \<times> jsval) list" where
  "nodes v =
     ([], v) # map (\<lambda>e. (snd (snd e), child (fst e) (fst (snd e)))) (descendants v True)"

fun own_chain :: "jsval \<Rightarrow> path \<Rightarrow> jsval option" where
  "own_chain v [] = Some v"
| "own_chain v (key # q) =
     (if key \<in> set (keys_of v) then own_chain (child v key) q else None)"


definition is_identifier :: "string \<Rightarrow> bool" where
  "is_identifier s = (s \<noteq> [] \<and> is_letter (hd s) \<and> list_all is_word (tl s))"

text \<open>
  What the facts about the evaluator say of a result: its paths all satisfy \<open>R\<close>, and it is
  no exception when \<open>A\<close> holds.
\<close>

definition returns :: "bool \<Rightarrow> (path \<Rightarrow> bool) \<Rightarrow> error + path list \<Rightarrow> bool" where
  "returns A R res = (case res of Inl e \<Rightarrow> \<not> A | Inr out \<Rightarrow> list_all R out)"

text \<open>The documents of the examples.\<close>

definition root_abc :: jsval where
  \<comment> \<open>\<^verbatim>\<open>{ a: { b: { c: 1 } } }\<close>\<close>
  "root_abc = JObj [(''a'', JObj [(''b'', JObj [(''c'', JNum 1)])])]"

definition root_a3 :: jsval where
  \<comment> \<open>\<^verbatim>\<open>{ a: [10, 20, 30] }\<close>\<close>
  "root_a3 = JObj [(''a'', JArr [JNum 10, JNum 20, JNum 30])]"

definition root_items :: jsval where
  \<comment> \<open>\<^verbatim>\<open>{ items: [ {v:1}, {v:2}, {v:3} ] }\<close>\<close>
  "root_items =
     JObj [(''items'', JArr [JObj [(''v'', JNum 1)], JObj [(''v'', JNum 2)], JObj [(''v'', JNum 3)]])]"

definition root_a1 :: jsval where
  \<comment> \<open>\<^verbatim>\<open>{ a: 1 }\<close>\<close>
  "root_a1 = JObj [(''a'', JNum 1)]"



text \<open>
  A platform for the examples: its \<^verbatim>\<open>JSON.parse\<close> decodes the text \<^verbatim>\<open>2\<close> and rejects every
  other text.
\<close>

definition example_platform :: platform where
  "example_platform =
     \<lparr>JSON_parse = (\<lambda>s. if s = ''2'' then Some (JNum 2) else None),
      less_than = (\<lambda>x y. None),
      to_string = (\<lambda>v. [])\<rparr>"

text \<open>Plans and instances of the examples, as \<^verbatim>\<open>#compile\<close> builds them.\<close>

definition plan_dollar_a :: compiled where
  "plan_dollar_a =
     \<lparr>plan_steps = [mk_step (Some ROOT) None None, mk_step (Some CHILDREN) (Some (KStr ''a'')) None],
      plan_i = 3\<rparr>"

definition jp_root_predicate :: JSONPath where
  \<comment> \<open>the instance that \<^verbatim>\<open>JSONPath.create("$[?(@.a)]")\<close> returns\<close>
  "jp_root_predicate =
     \<lparr>jp_compiled = Some
        \<lparr>plan_steps =
           [mk_step (Some ROOT) None None,
            mk_step (Some CHILDREN) None
              (Some [mk_step (Some CURRENT) None None,
                     mk_step (Some CHILDREN) (Some (KStr ''a'')) None])],
         plan_i = 9\<rparr>,
      jp_root = JUndefined\<rparr>"



definition jp_descendant_c :: JSONPath where
  \<comment> \<open>the instance that \<^verbatim>\<open>JSONPath.create("$..c")\<close> returns\<close>
  "jp_descendant_c =
     \<lparr>jp_compiled = Some
        \<lparr>plan_steps =
           [mk_step (Some ROOT) None None,
            mk_step (Some DESCENDANTS) (Some (KStr ''c'')) None],
         plan_i = 4\<rparr>,
      jp_root = JUndefined\<rparr>"

section \<open>Running the model on concrete inputs\<close>

text \<open>
  The simplifier runs the definitions on a concrete query and document. It must not
  rewrite under the function that a loop applies before the list it runs over is known;
  the two congruence rules below see to that.
\<close>

lemma collect_weak_cong: "xs = ys \<Longrightarrow> collect f xs = collect f ys"
  by simp

lemma map_weak_cong: "xs = ys \<Longrightarrow> map f xs = map f ys"
  by simp

lemmas compile_simps =
  compile_priv_def anchor_def compile_loop.simps charCodeAt_def startsWith_def compile_end_def
  consumeUnquotedIdentifier_def reUnquotedIdentifier_exec_def is_letter_def is_word_def
  is_digit_def or_CHILDREN_def or_public_CHILDREN_def predicate_not_def predicate_j_def
  set_not_last_def compileExpr_def reExpr_exec_def reIndice_exec_def parseInt_def
  nat_of_digits_def digit_val_def consumeQuotedIdentifier_def
  consumeQuotedIdentifier_loop.simps slice_def

lemmas eval_simps =
  getMatches.simps nested_matches_def getMatches_key_def keyed_paths_def truthy_key_def evaluateExpr_def
  outcome_of_def compared_def string_test_def strict_equals_def IsLessThan_def js_string_def
  resolvePath_def get_prop_def
  child_def own_prop_def key_string_def array_index_def hasOwn_def instanceof_Object_def
  isArray_def keys_of_def descendants_unfold digits_of_nat.simps Let_def

lemmas api_simps = query_paths_def create_def compile_def evaluate_def new_JSONPath_def

section \<open>Facts about the compiler\<close>

text \<open>
  The loop of \<^verbatim>\<open>#compile\<close> by cases on the token at the offset, and the tests that hold in
  each case. A plan that the loop returns has at least two steps, because the loop ends
  in \<open>compile_end\<close> only.
\<close>

lemma compile_loop_token:
  "compile_loop P query steps mv i =
     (case token_at query i of
        T_end \<Rightarrow> compile_end steps i
      | T_space \<Rightarrow> compile_loop P query steps mv (i + 1)
      | T_dot \<Rightarrow>
          (if mv \<noteq> UNDEFINED then Inr None
           else if startsWith query ''..'' i then compile_loop P query steps DESCENDANTS (i + 2)
           else compile_loop P query steps CHILDREN (i + 1))
      | T_other \<Rightarrow>
          (if mv = UNDEFINED then
             (if steps = [] then Inr None
              else compile_end (butlast steps @ [fst (compileExpr P (last steps) query i)])
                     (snd (compileExpr P (last steps) query i)))
           else
             (case consumeUnquotedIdentifier query i of
                None \<Rightarrow> Inr None
              | Some s \<Rightarrow>
                  compile_loop P query (steps @ [mk_step (Some mv) (Some (KStr s)) None])
                    UNDEFINED (i + length s)))
      | T_star \<Rightarrow>
          compile_loop P query (steps @ [mk_step (or_CHILDREN mv) (Some (KStr ''*'')) None])
            UNDEFINED (i + 3)
      | T_quoted \<Rightarrow>
          (case consumeQuotedIdentifier query (i + 2) of
             Inl e \<Rightarrow> Inl e
           | Inr None \<Rightarrow> Inr None
           | Inr (Some (s, i')) \<Rightarrow>
               compile_loop P query (steps @ [mk_step (or_CHILDREN mv) (Some (KStr s)) None])
                 UNDEFINED i')
      | T_predicate \<Rightarrow>
          (case compile_loop P query (fst (anchor query (predicate_j query i))) UNDEFINED
                  (snd (anchor query (predicate_j query i))) of
             Inl e \<Rightarrow> Inl e
           | Inr None \<Rightarrow> Inr None
           | Inr (Some r) \<Rightarrow>
               if \<not> startsWith query '')]'' (plan_i r) then Inr None
               else
                 (case (if predicate_not query i then set_not_last (plan_steps r)
                        else Inr (plan_steps r)) of
                    Inl e \<Rightarrow> Inl e
                  | Inr sub \<Rightarrow>
                      compile_loop P query (steps @ [mk_step (or_CHILDREN mv) None (Some sub)])
                        UNDEFINED (plan_i r + 2)))
      | T_index \<Rightarrow>
          (case reIndice_exec (drop i query) of
             None \<Rightarrow> Inr None
           | Some m \<Rightarrow>
               compile_loop P query
                 (steps @ [mk_step (or_public_CHILDREN mv)
                             (map_option KNum (parseInt (drop (i + 1) query))) None])
                 UNDEFINED (i + length m)))"
  by (subst compile_loop.simps) (simp add: token_at_def)

lemma token_at_guards:
  "token_at query i = T_space \<Longrightarrow> i \<noteq> length query \<and> charCodeAt query i = Some (CHR 0x20)"
  "token_at query i = T_dot \<Longrightarrow>
     i \<noteq> length query \<and> charCodeAt query i \<noteq> Some (CHR 0x20) \<and> charCodeAt query i = Some (CHR 0x2E)"
  "token_at query i = T_other \<Longrightarrow>
     i \<noteq> length query \<and> charCodeAt query i \<noteq> Some (CHR 0x20) \<and> charCodeAt query i \<noteq> Some (CHR 0x2E)
     \<and> charCodeAt query i \<noteq> Some (CHR 0x5B)"
  "token_at query i = T_star \<Longrightarrow>
     i \<noteq> length query \<and> charCodeAt query i \<noteq> Some (CHR 0x20) \<and> charCodeAt query i \<noteq> Some (CHR 0x2E)
     \<and> \<not> charCodeAt query i \<noteq> Some (CHR 0x5B) \<and> startsWith query ''[*]'' i"
  "token_at query i = T_quoted \<Longrightarrow>
     i \<noteq> length query \<and> charCodeAt query i \<noteq> Some (CHR 0x20) \<and> charCodeAt query i \<noteq> Some (CHR 0x2E)
     \<and> \<not> charCodeAt query i \<noteq> Some (CHR 0x5B) \<and> \<not> startsWith query ''[*]'' i
     \<and> startsWith query [CHR ''['', CHR 0x27] i"
  "token_at query i = T_predicate \<Longrightarrow>
     i \<noteq> length query \<and> charCodeAt query i \<noteq> Some (CHR 0x20) \<and> charCodeAt query i \<noteq> Some (CHR 0x2E)
     \<and> \<not> charCodeAt query i \<noteq> Some (CHR 0x5B) \<and> \<not> startsWith query ''[*]'' i
     \<and> \<not> startsWith query [CHR ''['', CHR 0x27] i \<and> startsWith query ''[?('' i"
  "token_at query i = T_index \<Longrightarrow>
     i \<noteq> length query \<and> charCodeAt query i \<noteq> Some (CHR 0x20) \<and> charCodeAt query i \<noteq> Some (CHR 0x2E)
     \<and> \<not> charCodeAt query i \<noteq> Some (CHR 0x5B) \<and> \<not> startsWith query ''[*]'' i
     \<and> \<not> startsWith query [CHR ''['', CHR 0x27] i \<and> \<not> startsWith query ''[?('' i"
  by (simp_all add: token_at_def split: if_splits)

lemma compile_end_Some:
  "compile_end steps i = Inr (Some r) \<longleftrightarrow>
     2 \<le> length steps \<and> r = \<lparr>plan_steps = steps, plan_i = i\<rparr>"
  by (auto simp: compile_end_def)

lemma compile_loop_two_steps:
  "compile_loop P query steps mv i = Inr (Some r) \<Longrightarrow> 2 \<le> length (plan_steps r)"
proof (induction P query steps mv i arbitrary: r rule: compile_loop.induct)
  case (1 P query steps mv i)
  from "1.prems" "1.IH" show ?case
    apply (subst (asm) compile_loop.simps)
    apply (simp split: if_split_asm option.split_asm sum.split_asm prod.split_asm
                add: compile_end_Some)
    done
qed

lemma compile_priv_two_steps:
  "compile_priv P query i = Inr (Some r) \<Longrightarrow> 2 \<le> length (plan_steps r)"
  by (auto simp: compile_priv_def dest: compile_loop_two_steps split: if_splits)

text \<open>
  The compiler raises only in \<^verbatim>\<open>#consumeQuotedIdentifier\<close>, and only when the query holds a
  backslash: \<^verbatim>\<open>r.steps.at(-1)\<close> is never undefined, since a plan has two steps.
\<close>

lemma consumeQuotedIdentifier_loop_error:
  "consumeQuotedIdentifier_loop query parts beg e = Inl err \<Longrightarrow> CHR 0x5C \<in> set query"
proof (induction query parts beg e rule: consumeQuotedIdentifier_loop.induct)
  case (1 query parts beg e)
  from "1.prems" "1.IH" show ?case
    apply (subst (asm) consumeQuotedIdentifier_loop.simps)
    apply (auto simp: charCodeAt_def split: if_split_asm)
    apply (metis Suc_lessD nth_mem)
    done
qed

lemma set_not_last_two_steps:
  "2 \<le> length ss \<Longrightarrow> set_not_last ss \<noteq> Inl err"
  by (cases ss) (simp_all add: set_not_last_def)

lemma compile_loop_error:
  "compile_loop P query steps mv i = Inl err \<Longrightarrow> CHR 0x5C \<in> set query"
proof (induction P query steps mv i rule: compile_loop.induct)
  case (1 P query steps mv i)
  from "1.prems" "1.IH" show ?case
    apply (subst (asm) compile_loop.simps)
    apply (simp split: if_split_asm option.split_asm sum.split_asm prod.split_asm
                add: compile_end_def consumeQuotedIdentifier_def)
     apply (auto dest: consumeQuotedIdentifier_loop_error compile_loop_two_steps
                 simp: set_not_last_two_steps)
    done
qed

text \<open>
  One more character in front of the query moves every offset by one and changes nothing
  else. Hence a query that starts with neither \<^verbatim>\<open>$\<close> nor \<^verbatim>\<open>@\<close> compiles to the steps of the
  same query with \<^verbatim>\<open>@\<close> put in front of it.
\<close>

lemma shift_plan_simps [simp]:
  "shift_plan (Inl e) = Inl e"
  "shift_plan (Inr None) = Inr None"
  "shift_plan (Inr (Some r)) = Inr (Some (r\<lparr>plan_i := Suc (plan_i r)\<rparr>))"
  by (simp_all add: shift_plan_def)

lemma shift_quoted_simps [simp]:
  "shift_quoted (Inl e) = Inl e"
  "shift_quoted (Inr None) = Inr None"
  "shift_quoted (Inr (Some (s, i))) = Inr (Some (s, Suc i))"
  by (simp_all add: shift_quoted_def)

lemma charCodeAt_Cons [simp]: "charCodeAt (c # q) (Suc i) = charCodeAt q i"
  by (simp add: charCodeAt_def)

lemma startsWith_Cons [simp]: "startsWith (c # q) s (Suc i) = startsWith q s i"
  by (simp add: startsWith_def)

lemma slice_Cons [simp]: "slice (c # q) (Suc b) (Suc e) = slice q b e"
  by (simp add: slice_def)

lemma token_at_Cons [simp]: "token_at (c # q) (Suc i) = token_at q i"
  by (simp add: token_at_def)

lemma consumeQuotedIdentifier_loop_Cons:
  "consumeQuotedIdentifier_loop (c # q) parts (Suc beg) (Suc e) =
     shift_quoted (consumeQuotedIdentifier_loop q parts beg e)"
proof (induction q parts beg e rule: consumeQuotedIdentifier_loop.induct)
  case (1 q parts beg e)
  show ?case
    apply (subst consumeQuotedIdentifier_loop.simps[of "c # q"])
    apply (subst consumeQuotedIdentifier_loop.simps[of q parts beg e])
    using "1.IH" by simp
qed

lemma consumeQuotedIdentifier_Cons:
  "consumeQuotedIdentifier (c # q) (Suc j) = shift_quoted (consumeQuotedIdentifier q j)"
  by (simp add: consumeQuotedIdentifier_def consumeQuotedIdentifier_loop_Cons)

lemma consumeUnquotedIdentifier_Cons [simp]:
  "consumeUnquotedIdentifier (c # q) (Suc i) = consumeUnquotedIdentifier q i"
  by (simp add: consumeUnquotedIdentifier_def)

lemma compileExpr_Cons:
  "compileExpr P st (c # q) (Suc i) = (fst (compileExpr P st q i), Suc (snd (compileExpr P st q i)))"
  by (simp add: compileExpr_def split: option.splits prod.splits)

lemma anchor_Cons:
  "anchor (c # q) (Suc j) = (fst (anchor q j), Suc (snd (anchor q j)))"
  by (simp add: anchor_def)

lemma predicate_not_Cons [simp]: "predicate_not (c # q) (Suc i) = predicate_not q i"
  by (simp add: predicate_not_def charCodeAt_def add.commute)

lemma predicate_j_Cons [simp]: "predicate_j (c # q) (Suc i) = Suc (predicate_j q i)"
  by (simp add: predicate_j_def)

lemma compile_end_Suc: "compile_end steps (Suc i) = shift_plan (compile_end steps i)"
  by (simp add: compile_end_def)

lemma compile_loop_Cons:
  "compile_loop P (c # q) steps mv (Suc i) = shift_plan (compile_loop P q steps mv i)"
proof (induction P q steps mv i rule: compile_loop.induct)
  case (1 P q steps mv i)
  note L = compile_loop_token[of P "c # q" steps mv "Suc i"]
  note R = compile_loop_token[of P q steps mv i]
  show ?case
  proof (cases "token_at q i")
    case T_end
    then show ?thesis unfolding L R by (simp add: compile_end_Suc)
  next
    case T_space
    have "compile_loop P (c # q) steps mv (Suc (i + 1)) = shift_plan (compile_loop P q steps mv (i + 1))"
      by (rule "1.IH"(1)) (use token_at_guards(1)[OF T_space] in simp_all)
    with T_space show ?thesis unfolding L R by simp
  next
    case T_dot
    note g = token_at_guards(2)[OF this]
    show ?thesis
    proof (cases "mv \<noteq> UNDEFINED")
      case True
      with T_dot show ?thesis unfolding L R by simp
    next
      case False
      show ?thesis
      proof (cases "startsWith q ''..'' i")
        case True
        have "compile_loop P (c # q) steps DESCENDANTS (Suc (i + 2)) =
                shift_plan (compile_loop P q steps DESCENDANTS (i + 2))"
      by (rule "1.IH"(2)) (use g False True in simp_all)
        with T_dot False True show ?thesis unfolding L R by simp
      next
        case nodd: False
        have "compile_loop P (c # q) steps CHILDREN (Suc (i + 1)) =
                shift_plan (compile_loop P q steps CHILDREN (i + 1))"
      by (rule "1.IH"(3)) (use g False nodd in simp_all)
        with T_dot False nodd show ?thesis unfolding L R by simp
      qed
    qed
  next
    case T_other
    note g = token_at_guards(3)[OF this]
    show ?thesis
    proof (cases "mv = UNDEFINED")
      case True
      with T_other show ?thesis unfolding L R by (simp add: compile_end_Suc compileExpr_Cons)
    next
      case False
      show ?thesis
      proof (cases "consumeUnquotedIdentifier q i")
        case None
        with T_other False show ?thesis unfolding L R by simp
      next
        case (Some s)
        have "compile_loop P (c # q) (steps @ [mk_step (Some mv) (Some (KStr s)) None]) UNDEFINED (Suc (i + length s)) =
                shift_plan (compile_loop P q (steps @ [mk_step (Some mv) (Some (KStr s)) None]) UNDEFINED (i + length s))"
      by (rule "1.IH"(4)) (use g False Some in simp_all)
        with T_other False Some show ?thesis unfolding L R by simp
      qed
    qed
  next
    case T_star
    have "compile_loop P (c # q) (steps @ [mk_step (or_CHILDREN mv) (Some (KStr ''*'')) None]) UNDEFINED (Suc (i + 3)) =
            shift_plan (compile_loop P q (steps @ [mk_step (or_CHILDREN mv) (Some (KStr ''*'')) None]) UNDEFINED (i + 3))"
      by (rule "1.IH"(5)) (use token_at_guards(4)[OF T_star] in simp_all)
    with T_star show ?thesis unfolding L R by simp
  next
    case T_quoted
    note g = token_at_guards(5)[OF this]
    show ?thesis
    proof (cases "consumeQuotedIdentifier q (i + 2)")
      case (Inl e)
      with T_quoted show ?thesis unfolding L R by (simp add: consumeQuotedIdentifier_Cons)
    next
      case (Inr b)
      show ?thesis
      proof (cases b)
        case None
        with T_quoted Inr show ?thesis unfolding L R by (simp add: consumeQuotedIdentifier_Cons)
      next
        case (Some si)
        obtain s i' where si: "si = (s, i')" by (cases si)
        have "compile_loop P (c # q) (steps @ [mk_step (or_CHILDREN mv) (Some (KStr s)) None]) UNDEFINED (Suc i') =
                shift_plan (compile_loop P q (steps @ [mk_step (or_CHILDREN mv) (Some (KStr s)) None]) UNDEFINED i')"
      by (rule "1.IH"(6)[of b si s i']) (use g Inr Some si in simp_all)
        with T_quoted Inr Some si show ?thesis unfolding L R by (simp add: consumeQuotedIdentifier_Cons)
      qed
    qed
  next
    case T_predicate
    note g = token_at_guards(6)[OF this]
    let ?inner = "compile_loop P q (fst (anchor q (predicate_j q i))) UNDEFINED (snd (anchor q (predicate_j q i)))"
    from g "1.IH"(7)
    have inner: "compile_loop P (c # q) (fst (anchor q (predicate_j q i))) UNDEFINED
                   (Suc (snd (anchor q (predicate_j q i)))) = shift_plan ?inner"
      by simp
    show ?thesis
    proof (cases ?inner)
      case (Inl e)
      with T_predicate inner show ?thesis unfolding L R by (simp add: anchor_Cons)
    next
      case (Inr b)
      show ?thesis
      proof (cases b)
        case None
        with T_predicate inner Inr show ?thesis unfolding L R by (simp add: anchor_Cons)
      next
        case (Some r)
        show ?thesis
        proof (cases "startsWith q '')]'' (plan_i r)")
          case False
          with T_predicate inner Inr Some show ?thesis unfolding L R by (simp add: anchor_Cons)
        next
          case True
          show ?thesis
          proof (cases "if predicate_not q i then set_not_last (plan_steps r) else Inr (plan_steps r)")
            case (Inl e)
            with T_predicate inner Inr Some True show ?thesis
              unfolding L R by (simp add: anchor_Cons split: if_splits)
          next
            case sub: (Inr sub)
            have "compile_loop P (c # q) (steps @ [mk_step (or_CHILDREN mv) None (Some sub)]) UNDEFINED (Suc (plan_i r + 2)) =
                    shift_plan (compile_loop P q (steps @ [mk_step (or_CHILDREN mv) None (Some sub)]) UNDEFINED (plan_i r + 2))"
      by (rule "1.IH"(8)[of b r sub]) (use g Inr Some True sub in simp_all)
            with T_predicate inner Inr Some True sub show ?thesis
              unfolding L R by (simp add: anchor_Cons split: if_splits)
          qed
        qed
      qed
    qed
  next
    case T_index
    note g = token_at_guards(7)[OF this]
    show ?thesis
    proof (cases "reIndice_exec (drop i q)")
      case None
      with T_index show ?thesis unfolding L R by simp
    next
      case (Some m)
      have "compile_loop P (c # q)
              (steps @ [mk_step (or_public_CHILDREN mv) (map_option KNum (parseInt (drop (i + 1) q))) None])
              UNDEFINED (Suc (i + length m)) =
            shift_plan (compile_loop P q
              (steps @ [mk_step (or_public_CHILDREN mv) (map_option KNum (parseInt (drop (i + 1) q))) None])
              UNDEFINED (i + length m))"
      by (rule "1.IH"(9)) (use g Some in simp_all)
      with T_index Some show ?thesis unfolding L R by simp
    qed
  qed
qed

lemma anchor_no_anchor:
  assumes "query \<noteq> []" "hd query \<noteq> CHR ''$''" "hd query \<noteq> CHR ''@''"
  shows "anchor query 0 = ([mk_step (Some CURRENT) None None], 0)"
  using assms by (cases query) (simp_all add: anchor_def charCodeAt_def)

lemma anchor_at: "anchor (CHR ''@'' # query) 0 = ([mk_step (Some CURRENT) None None], 1)"
  by (simp add: anchor_def charCodeAt_def)

lemma compile_priv_at:
  assumes "query \<noteq> []" "hd query \<noteq> CHR ''$''" "hd query \<noteq> CHR ''@''"
  shows "compile_priv P (CHR ''@'' # query) 0 = shift_plan (compile_priv P query 0)"
  using assms compile_loop_Cons[of P "CHR ''@''" query "[mk_step (Some CURRENT) None None]" UNDEFINED 0]
  by (simp add: compile_priv_def anchor_no_anchor anchor_at)

text \<open>
  A text that \<^verbatim>\<open>#reExpr\<close> matches starts with a character that is neither a blank, a dot nor
  a bracket, and after the operator and the literal it goes on with \<^verbatim>\<open>)]\<close>. When the literal
  does not decode, \<^verbatim>\<open>#compileExpr\<close> returns the step as it got
  it; and a step without an operator tests whether the container owns the key.
\<close>

lemma lazy_literal_Some:
  "lazy_literal acc s = Some lit \<Longrightarrow>
     \<exists>l. lit = acc @ l \<and> l \<noteq> [] \<and> prefix (l @ '')]'') s"
proof (induction acc s rule: lazy_literal.induct)
  case (1 acc)
  then show ?case by simp
next
  case (2 acc c cs)
  show ?case
  proof (cases "prefix '')]'' cs")
    case True
    with "2.prems" have "lit = acc @ [c]" by (simp split: if_splits)
    with True show ?thesis by auto
  next
    case False
    with "2.prems" have nl: "\<not> (c = CHR 0x0A \<or> c = CHR 0x0D)"
      and r: "lazy_literal (acc @ [c]) cs = Some lit" by (simp_all split: if_splits)
    from "2.IH"[OF nl False r] obtain l where "lit = (acc @ [c]) @ l" "l \<noteq> []" "prefix (l @ '')]'') cs"
      by blast
    then have "lit = acc @ (c # l) \<and> c # l \<noteq> [] \<and> prefix ((c # l) @ '')]'') (c # cs)" by simp
    then show ?thesis by blast
  qed
qed

lemma reExpr_exec_Some:
  assumes "reExpr_exec s = Some (opr, lit)"
  shows "lit \<noteq> [] \<and> prefix (opr @ lit @ '')]'') s"
proof -
  from assms obtain c d r where s: "s = c # d # r"
    by (cases s; cases "tl s") (auto simp: reExpr_exec_def)
  show ?thesis
  proof (cases "c \<in> set ''!=^$*''")
    case True
    with assms s have "d = CHR ''=''" "opr = [c, d]" "lazy_literal [] r = Some lit"
      by (auto simp: reExpr_exec_def split: if_splits)
    with lazy_literal_Some[of "[]" r lit] s show ?thesis by auto
  next
    case False
    show ?thesis
    proof (cases "(if d = CHR ''='' then lazy_literal [] r else None)")
      case None
      with assms s False have "opr = [c]" "lazy_literal [] (d # r) = Some lit"
        by (auto simp: reExpr_exec_def split: if_splits)
      with lazy_literal_Some[of "[]" "d # r" lit] s show ?thesis by auto
    next
      case (Some l)
      with assms s False have "opr = [c, d]" "lit = l" "lazy_literal [] r = Some l"
        by (auto simp: reExpr_exec_def split: if_splits)
      with lazy_literal_Some[of "[]" r l] s show ?thesis by auto
    qed
  qed
qed

lemma reExpr_exec_followed:
  assumes "reExpr_exec (drop i query) = Some (opr, lit)"
  shows "startsWith query '')]'' (i + length opr + length lit)"
proof -
  from reExpr_exec_Some[OF assms] have "prefix (opr @ lit @ '')]'') (drop i query)" by simp
  then obtain rest where "drop i query = (opr @ lit) @ '')]'' @ rest" by (auto simp: prefix_def)
  then have "drop (length (opr @ lit)) (drop i query) = '')]'' @ rest"
    by (metis append_eq_conv_conj)
  then show ?thesis by (simp add: startsWith_def add.commute add.left_commute)
qed

lemma reExpr_exec_token:
  assumes "reExpr_exec (drop i query) = Some (opr, lit)"
  shows "token_at query i = T_other"
proof -
  from assms obtain c d r where d: "drop i query = c # d # r" and c: "c \<in> set ''!=^$*<>''"
    by (auto simp: reExpr_exec_def split: list.splits if_splits)
  from d have "i < length query" by (metis drop_all list.distinct(1) not_le)
  moreover from d this have "query ! i = c" by (metis nth_via_drop)
  ultimately show ?thesis using c by (auto simp: token_at_def charCodeAt_def startsWith_def)
qed

lemma compileExpr_undecodable:
  assumes "reExpr_exec (drop i query) = Some (opr, lit)" "JSON_parse P lit = None"
  shows "compileExpr P st query i = (st, i + length opr + length lit)"
  using assms by (simp add: compileExpr_def)

text \<open>The query \<^verbatim>\<open>$..name\<close> compiles to the anchor and one descendant step for the name.\<close>

lemma is_letter_not_punct:
  "is_letter c \<Longrightarrow> c \<noteq> CHR 0x20 \<and> c \<noteq> CHR 0x2E \<and> c \<noteq> CHR 0x5B \<and> c \<noteq> CHR ''*''"
  by (auto simp: is_letter_def)

lemma compile_priv_descendant_identifier:
  assumes "is_identifier s"
  shows "compile_priv P (''$..'' @ s) 0 =
           Inr (Some \<lparr>plan_steps = [mk_step (Some ROOT) None None,
                                      mk_step (Some DESCENDANTS) (Some (KStr s)) None],
                       plan_i = 3 + length s\<rparr>)"
proof -
  from assms obtain c cs where s: "s = c # cs" and c: "is_letter c" and cs: "list_all is_word cs"
    by (cases s) (auto simp: is_identifier_def)
  from cs have tw: "takeWhile is_word cs = cs"
    by (simp add: list_all_iff)
  note n = is_letter_not_punct[OF c]
  let ?q = "''$..'' @ s"
  have l3: "compile_loop P ?q [mk_step (Some ROOT) None None,
                             mk_step (Some DESCENDANTS) (Some (KStr s)) None] UNDEFINED (3 + length s) =
            Inr (Some \<lparr>plan_steps = [mk_step (Some ROOT) None None,
                                      mk_step (Some DESCENDANTS) (Some (KStr s)) None],
                       plan_i = 3 + length s\<rparr>)"
    by (subst compile_loop.simps) (simp add: compile_end_def)
  have l2: "compile_loop P ?q [mk_step (Some ROOT) None None] DESCENDANTS 3 =
            compile_loop P ?q [mk_step (Some ROOT) None None,
                             mk_step (Some DESCENDANTS) (Some (KStr s)) None] UNDEFINED (3 + length s)"
    by (subst compile_loop.simps)
       (simp add: s n c tw charCodeAt_def consumeUnquotedIdentifier_def
                  reUnquotedIdentifier_exec_def)
  have l1: "compile_loop P ?q [mk_step (Some ROOT) None None] UNDEFINED 1 =
            compile_loop P ?q [mk_step (Some ROOT) None None] DESCENDANTS 3"
    by (subst compile_loop.simps) (simp add: s charCodeAt_def startsWith_def numeral_3_eq_3)
  show ?thesis
    by (simp add: compile_priv_def anchor_def charCodeAt_def l1[simplified] l2[simplified] l3[simplified])
qed

section \<open>Facts about paths\<close>

text \<open>
  In the model, where a property that a value does not own reads as \<^verbatim>\<open>undefined\<close>,
  \<^verbatim>\<open>resolvePath\<close> returns exactly when the whole path can be walked, and that is when every
  proper prefix of the path leads to a value that is not nullish.
\<close>

lemma get_prop_nullish: "nullish obj \<Longrightarrow> get_prop obj key = Inl TypeError"
  by (auto simp: get_prop_def nullish_def)

lemma get_prop_child: "\<not> nullish obj \<Longrightarrow> get_prop obj key = Inr (child obj key)"
  by (simp add: get_prop_def nullish_def)

lemma walk_append:
  "walk obj (p @ q) = (case walk obj p of Inl e \<Rightarrow> Inl e | Inr v \<Rightarrow> walk v q)"
  by (induction p arbitrary: obj) (auto split: sum.splits)

lemma walk_snoc:
  "walk obj (p @ [key]) = (case walk obj p of Inl e \<Rightarrow> Inl e | Inr v \<Rightarrow> get_prop v key)"
  by (simp add: walk_append split: sum.splits)

lemma walk_nullish:
  "nullish v \<Longrightarrow> p \<noteq> [] \<Longrightarrow> walk v p = Inl TypeError"
  by (cases p) (simp_all add: get_prop_nullish)


lemma resolvePath_Nil: "resolvePath this [] = Inr \<lparr>r_obj = None, r_key = None, r_value = jp_root this\<rparr>"
  by (simp add: resolvePath_def)

lemma resolvePath_snoc:
  "resolvePath this (p @ [key]) =
     (case walk (jp_root this) p of
        Inl e \<Rightarrow> Inl e
      | Inr obj \<Rightarrow>
          (case get_prop obj key of
             Inl e \<Rightarrow> Inl e
           | Inr v \<Rightarrow> Inr \<lparr>r_obj = Some obj, r_key = Some key, r_value = v\<rparr>))"
  by (simp add: resolvePath_def split: sum.splits)


lemma walk_resolvePath:
  "walk (jp_root this) p = Inr v \<Longrightarrow> \<exists>r. resolvePath this p = Inr r \<and> r_value r = v"
proof (cases p rule: rev_cases)
  case Nil
  then show "walk (jp_root this) p = Inr v \<Longrightarrow> ?thesis" by (auto simp: resolvePath_Nil)
next
  case (snoc q key)
  then show "walk (jp_root this) p = Inr v \<Longrightarrow> ?thesis"
    by (auto simp: resolvePath_snoc walk_snoc split: sum.splits)
qed


text \<open>
  Every entry of \<^verbatim>\<open>#getDescendants(v, recursive)\<close> has a path that is not empty; walking the
  path but for its last key from \<open>v\<close> leads to the \<^verbatim>\<open>obj\<close> of the entry, a container, and the
  last key is the \<^verbatim>\<open>key\<close> of the entry. So the value \<^verbatim>\<open>obj[key]\<close> that \<^verbatim>\<open>#getMatches\<close> reads
  from an entry is the value at the end of its path.
\<close>

lemma keys_of_not_nullish: "key \<in> set (keys_of v) \<Longrightarrow> instanceof_Object v"
  by (cases v) (auto simp: keys_of_def instanceof_Object_def)

lemma instanceof_Object_not_nullish: "instanceof_Object v \<Longrightarrow> \<not> nullish v"
  by (cases v) (auto simp: nullish_def instanceof_Object_def)

lemma descendants_mem:
  "e \<in> set (descendants v recursive) \<longleftrightarrow>
     (\<exists>key \<in> set (keys_of v).
        e = (v, key, [key]) \<or>
        (recursive \<and> (\<exists>e' \<in> set (descendants (child v key) recursive).
            e = (fst e', fst (snd e'), key # snd (snd e')))))"
  by (subst descendants_unfold) auto

lemma descendants_walk:
  "e \<in> set (descendants v recursive) \<Longrightarrow>
     snd (snd e) \<noteq> [] \<and> walk v (butlast (snd (snd e))) = Inr (fst e) \<and>
     last (snd (snd e)) = fst (snd e) \<and> fst (snd e) \<in> set (keys_of (fst e))"
proof (induction v recursive arbitrary: e rule: descendants_induct)
  case (1 v recursive)
  from "1.prems" obtain key where key: "key \<in> set (keys_of v)"
    and e: "e = (v, key, [key]) \<or>
        (recursive \<and> (\<exists>e' \<in> set (descendants (child v key) recursive).
            e = (fst e', fst (snd e'), key # snd (snd e'))))"
    unfolding descendants_mem[of e v] by blast
  from key have nn: "\<not> nullish v"
    by (simp add: keys_of_not_nullish instanceof_Object_not_nullish)
  from e show ?case
  proof
    assume "e = (v, key, [key])"
    with key show ?thesis by simp
  next
    assume "recursive \<and> (\<exists>e' \<in> set (descendants (child v key) recursive).
            e = (fst e', fst (snd e'), key # snd (snd e')))"
    then obtain e' where r: recursive and e': "e' \<in> set (descendants (child v key) recursive)"
      and ee: "e = (fst e', fst (snd e'), key # snd (snd e'))" by blast
    from "1.IH"[OF key r e'] have ih: "snd (snd e') \<noteq> []"
       "walk (child v key) (butlast (snd (snd e'))) = Inr (fst e')"
       "last (snd (snd e')) = fst (snd e')" "fst (snd e') \<in> set (keys_of (fst e'))"
      by simp_all
    with ee nn show ?thesis by (simp add: get_prop_child)
  qed
qed

lemma descendants_walk_full:
  assumes "e \<in> set (descendants v recursive)"
  shows "walk v (snd (snd e)) = Inr (child (fst e) (fst (snd e)))"
proof -
  from descendants_walk[OF assms] have a: "snd (snd e) \<noteq> []"
    "walk v (butlast (snd (snd e))) = Inr (fst e)" "last (snd (snd e)) = fst (snd e)"
    "fst (snd e) \<in> set (keys_of (fst e))" by simp_all
  from a(4) have "\<not> nullish (fst e)"
    by (simp add: keys_of_not_nullish instanceof_Object_not_nullish)
  moreover from a(1) have "snd (snd e) = butlast (snd (snd e)) @ [last (snd (snd e))]" by simp
  ultimately show ?thesis
    using a(2,3) by (metis (no_types, lifting) walk_snoc get_prop_child sum.simps(6))
qed

text \<open>
  The nodes of a document are the values that chains of keys lead to, each with its
  chain: the descendants are all of them, at every depth.
\<close>

lemma nodes_mem:
  "(q, w) \<in> set (nodes v) \<longleftrightarrow>
     q = [] \<and> w = v \<or>
     (\<exists>key \<in> set (keys_of v). \<exists>q'. q = key # q' \<and> (q', w) \<in> set (nodes (child v key)))"
  (is "?L \<longleftrightarrow> ?R")
proof
  assume ?L
  then consider "q = []" "w = v"
    | e where "e \<in> set (descendants v True)" "q = snd (snd e)" "w = child (fst e) (fst (snd e))"
    by (auto simp: nodes_def)
  then show ?R
  proof cases
    case 1
    then show ?thesis by simp
  next
    case 2
    from 2(1) obtain key where key: "key \<in> set (keys_of v)"
      and e: "e = (v, key, [key]) \<or>
              (\<exists>e' \<in> set (descendants (child v key) True).
                 e = (fst e', fst (snd e'), key # snd (snd e')))"
      unfolding descendants_mem[of e v] by blast
    from e show ?thesis
    proof
      assume "e = (v, key, [key])"
      with 2(2,3) key show ?thesis by (auto simp: nodes_def)
    next
      assume "\<exists>e' \<in> set (descendants (child v key) True).
                 e = (fst e', fst (snd e'), key # snd (snd e'))"
      then obtain e' where e': "e' \<in> set (descendants (child v key) True)"
        "e = (fst e', fst (snd e'), key # snd (snd e'))" by blast
      then have "(snd (snd e'), w) \<in> set (nodes (child v key))"
        using 2(3) by (force simp: nodes_def)
      with e'(2) 2(2) key show ?thesis by auto
    qed
  qed
next
  assume ?R
  then consider "q = []" "w = v"
    | key q' where "key \<in> set (keys_of v)" "q = key # q'" "(q', w) \<in> set (nodes (child v key))"
    by blast
  then show ?L
  proof cases
    case 1
    then show ?thesis by (simp add: nodes_def)
  next
    case 2
    from 2(3) consider "q' = []" "w = child v key"
      | e' where "e' \<in> set (descendants (child v key) True)" "q' = snd (snd e')"
          "w = child (fst e') (fst (snd e'))"
      by (auto simp: nodes_def)
    then show ?thesis
    proof cases
      case 1
      have "(v, key, [key]) \<in> set (descendants v True)"
        unfolding descendants_mem[of _ v] using 2(1) by blast
      from imageI[OF this, of "\<lambda>e. (snd (snd e), child (fst e) (fst (snd e)))"] 1 2(2)
      show ?thesis by (simp add: nodes_def)
    next
      case 2
      have "(fst e', fst (snd e'), key # snd (snd e')) \<in> set (descendants v True)"
        unfolding descendants_mem[of _ v] using \<open>key \<in> set (keys_of v)\<close> 2(1) by blast
      from imageI[OF this, of "\<lambda>e. (snd (snd e), child (fst e) (fst (snd e)))"]
        2(2,3) \<open>q = key # q'\<close>
      show ?thesis by (simp add: nodes_def)
    qed
  qed
qed

lemma nodes_own_chain: "(q, w) \<in> set (nodes v) \<longleftrightarrow> own_chain v q = Some w"
proof (induction q arbitrary: v)
  case Nil
  show ?case by (subst nodes_mem) auto
next
  case (Cons key q)
  show ?case by (subst nodes_mem) (auto simp: Cons.IH)
qed

lemma own_chain_walk: "own_chain v q = Some w \<Longrightarrow> walk v q = Inr w"
  by (induction q arbitrary: v)
     (auto simp: get_prop_child keys_of_not_nullish instanceof_Object_not_nullish
           split: if_splits)




text \<open>Below a plain value every value is plain, and a plain value converts.\<close>

lemma plain_coercible: "plain v \<Longrightarrow> coercible v"
  by (induction v rule: plain.induct) (auto simp: list_all_iff)

lemma own_prop_plain:
  assumes "plain obj" "own_prop obj key = Some v"
  shows "plain v"
proof (cases obj)
  case (JObj kvs)
  with assms(2) have "(key_string key, v) \<in> set kvs"
    by (auto simp: own_prop_def dest: map_of_SomeD)
  with assms(1) JObj show ?thesis by (auto simp: list_all_iff)
next
  case (JArr xs)
  with assms show ?thesis
    by (auto simp: own_prop_def list_all_iff split: option.splits if_splits)
next
  case (JStr s)
  with assms show ?thesis
    by (auto simp: own_prop_def split: option.splits if_splits)
qed (use assms in \<open>simp_all add: own_prop_def\<close>)

lemma get_prop_plain:
  "plain obj \<Longrightarrow> get_prop obj key = Inr v \<Longrightarrow> plain v"
  by (auto simp: get_prop_def child_def own_prop_plain split: if_splits option.splits)

lemma walk_plain:
  "plain obj \<Longrightarrow> walk obj p = Inr v \<Longrightarrow> plain v"
proof (induction p arbitrary: obj)
  case Nil
  then show ?case by simp
next
  case (Cons key p)
  from Cons.prems(2) obtain u where u: "get_prop obj key = Inr u" "walk u p = Inr v"
    by (auto split: sum.splits)
  from get_prop_plain[OF Cons.prems(1) u(1)] have "plain u" .
  from Cons.IH[OF this u(2)] show ?case .
qed

section \<open>Facts about the evaluator\<close>

text \<open>
  Every path that the evaluator hands to \<^verbatim>\<open>resolvePath\<close>, and every path it returns, is
  resolvable: a candidate is extended only below a value that is not nullish, by one key
  or by the path of a descendant. Therefore no call of \<^verbatim>\<open>resolvePath\<close> throws, and the only
  exception that can leave the evaluation is the one of a conversion in \<^verbatim>\<open>#evaluateExpr\<close>;
  there is none when the document and the literals of the plan are plain.
  In \<open>returns A R res\<close> the flag \<open>A\<close> says that they are: then \<open>res\<close> is no exception; and
  always, the paths of a result satisfy \<open>R\<close>. The nested plans are handled by induction on
  the size of the plan.
\<close>

lemma returns_Inr [simp]: "returns A R (Inr out) \<longleftrightarrow> list_all R out"
  by (simp add: returns_def)

lemma returns_Inl [simp]: "returns A R (Inl e) \<longleftrightarrow> \<not> A"
  by (simp add: returns_def)

lemma returns_collect:
  assumes "\<And>x. x \<in> set xs \<Longrightarrow> returns A R (f x)"
  shows "returns A R (collect f xs)"
  using assms
proof (induction xs)
  case Nil
  then show ?case by simp
next
  case (Cons x xs)
  from Cons.prems have x: "returns A R (f x)" and xs: "returns A R (collect f xs)"
    using Cons.IH by simp_all
  then show ?case by (auto split: sum.splits)
qed


lemma returns_append:
  assumes "returns A R r1" "returns A R r2"
  shows "returns A R (case r1 of Inl e \<Rightarrow> Inl e
                      | Inr a \<Rightarrow> (case r2 of Inl e \<Rightarrow> Inl e | Inr b \<Rightarrow> Inr (a @ b)))"
  using assms by (auto split: sum.splits)

lemma resolvable_Nil [simp]: "resolvable this []"
  by (simp add: resolvable_def)

lemma resolvable_snoc:
  "walk (jp_root this) p = Inr v \<Longrightarrow> \<not> nullish v \<Longrightarrow> resolvable this (p @ [key])"
  by (simp add: resolvable_def walk_snoc get_prop_child)

lemma resolvable_descendant:
  "walk (jp_root this) p = Inr v \<Longrightarrow> e \<in> set (descendants v recursive) \<Longrightarrow>
     resolvable this (p @ snd (snd e))"
  by (simp add: resolvable_def walk_append descendants_walk_full)

lemma resolvable_descendant_key:
  "walk (jp_root this) p = Inr v \<Longrightarrow> e \<in> set (descendants v recursive) \<Longrightarrow>
     instanceof_Object (child (fst e) (fst (snd e))) \<Longrightarrow>
     resolvable this (p @ snd (snd e) @ [key])"
  using resolvable_snoc[of this "p @ snd (snd e)" "child (fst e) (fst (snd e))" key]
  by (simp add: walk_append descendants_walk_full instanceof_Object_not_nullish)

lemma resolvePath_resolvable:
  assumes "resolvable this p"
  shows "\<exists>r. resolvePath this p = Inr r \<and> walk (jp_root this) p = Inr (r_value r) \<and>
           (p = [] \<longrightarrow> r_obj r = None \<and> r_key r = None \<and> r_value r = jp_root this) \<and>
           (p \<noteq> [] \<longrightarrow>
              (\<exists>obj. r_obj r = Some obj \<and> r_key r = Some (last p) \<and>
                     walk (jp_root this) (butlast p) = Inr obj \<and>
                     get_prop obj (last p) = Inr (r_value r)))"
proof (cases p rule: rev_cases)
  case Nil
  then show ?thesis by (simp add: resolvePath_Nil)
next
  case (snoc q key)
  with assms obtain obj v where "walk (jp_root this) q = Inr obj" "get_prop obj key = Inr v"
    by (auto simp: resolvable_def walk_snoc split: sum.splits)
  with snoc show ?thesis by (simp add: resolvePath_snoc walk_snoc)
qed

lemma compared_Inr: "res = Inr r \<Longrightarrow> \<exists>b. compared f res = Inr b"
  by (simp add: compared_def)

lemma outcome_of_Inr:
  assumes "coercible v" "coercible rval"
  shows "\<exists>b. outcome_of P opr v rval has = Inr b"
  using assms
  by (simp add: outcome_of_def compared_def string_test_def IsLessThan_def js_string_def)

lemma evaluateExpr_snoc:
  assumes "walk (jp_root this) p = Inr obj" "get_prop obj key = Inr v"
  shows "evaluateExpr P this st (p @ [key]) =
           (if s_op st \<noteq> None \<and> \<not> hasOwn obj key then Inr []
            else
              (case outcome_of P (s_op st) v
                      (case s_rval st of Some rv \<Rightarrow> rv | None \<Rightarrow> JUndefined)
                      (hasOwn obj key) of
                 Inl e \<Rightarrow> Inl e
               | Inr outcome \<Rightarrow> if outcome = s_not st then Inr [] else Inr [p @ [key]]))"
  using assms by (simp add: evaluateExpr_def resolvePath_snoc)

lemma evaluateExpr_returns:
  assumes r: "resolvable this path" and ne: "path \<noteq> []"
    and A: "A \<Longrightarrow> plain (jp_root this)" "A \<Longrightarrow> plain_step st"
  shows "returns A (resolvable this) (evaluateExpr P this st path)"
proof -
  from ne have eq: "path = butlast path @ [last path]" by simp
  from r obtain obj v where w: "walk (jp_root this) (butlast path) = Inr obj"
    and g: "get_prop obj (last path) = Inr v"
    by (subst (asm) eq) (auto simp: resolvable_def walk_snoc split: sum.splits)
  let ?rval = "case s_rval st of Some rv \<Rightarrow> rv | None \<Rightarrow> JUndefined"
  have conv: "\<exists>b. outcome_of P (s_op st) v ?rval (hasOwn obj (last path)) = Inr b" if A
  proof (rule outcome_of_Inr)
    from walk_plain[OF A(1)[OF that] w] have "plain obj" .
    from get_prop_plain[OF this g] show "coercible v" by (rule plain_coercible)
    from A(2)[OF that] show "coercible ?rval"
      by (subst (asm) plain_step.simps) (auto split: option.splits)
  qed
  have "evaluateExpr P this st (butlast path @ [last path]) =
           (if s_op st \<noteq> None \<and> \<not> hasOwn obj (last path) then Inr []
            else
              (case outcome_of P (s_op st) v ?rval (hasOwn obj (last path)) of
                 Inl e \<Rightarrow> Inl e
               | Inr outcome \<Rightarrow>
                   if outcome = s_not st then Inr [] else Inr [butlast path @ [last path]]))"
    using w g by (rule evaluateExpr_snoc)
  then show ?thesis
    unfolding eq[symmetric] using r conv by (auto split: sum.splits)
qed

lemma keyed_paths_ok:
  assumes "walk (jp_root this) pathin = Inr v" "\<not> nullish v" "keyed_paths pathin v key = Some ps"
  shows "\<forall>p \<in> set ps. resolvable this p \<and> p \<noteq> []"
  using assms resolvable_snoc[OF assms(1,2)]
  by (auto simp: keyed_paths_def Let_def split: pkey.splits jsval.splits if_splits)

lemma getMatches_key_returns:
  assumes w: "walk (jp_root this) pathin = Inr v" and nn: "\<not> nullish v"
    and A: "A \<Longrightarrow> plain (jp_root this)" "A \<Longrightarrow> plain_step st"
  shows "returns A (resolvable this) (getMatches_key P this st pathin v key)"
proof (cases "key = KStr ''*''")
  case True
  have "returns A (resolvable this)
          (collect (\<lambda>e. evaluateExpr P this st (pathin @ snd (snd e)))
             (descendants v (s_mv st = Some DESCENDANTS)))"
  proof (rule returns_collect)
    fix e assume e: "e \<in> set (descendants v (s_mv st = Some DESCENDANTS))"
    from descendants_walk[OF e] have "pathin @ snd (snd e) \<noteq> []" by simp
    with resolvable_descendant[OF w e]
    show "returns A (resolvable this) (evaluateExpr P this st (pathin @ snd (snd e)))"
      using A by (rule evaluateExpr_returns)
  qed
  with True show ?thesis by (simp add: getMatches_key_def)
next
  case False
  show ?thesis
  proof (cases "keyed_paths pathin v key")
    case None
    with False show ?thesis by (simp add: getMatches_key_def)
  next
    case (Some ps)
    have r1: "returns A (resolvable this) (collect (evaluateExpr P this st) ps)"
    proof (rule returns_collect)
      fix x assume "x \<in> set ps"
      with keyed_paths_ok[OF w nn Some] have "resolvable this x" "x \<noteq> []" by auto
      then show "returns A (resolvable this) (evaluateExpr P this st x)"
        using A by (rule evaluateExpr_returns)
    qed
    have r2: "returns A (resolvable this)
           (collect (\<lambda>e.
               if \<not> instanceof_Object (child (fst e) (fst (snd e))) then Inr []
               else if \<not> hasOwn (child (fst e) (fst (snd e))) key then Inr []
               else evaluateExpr P this st (pathin @ snd (snd e) @ [key]))
             (descendants v True))"
    proof (rule returns_collect)
      fix e assume e: "e \<in> set (descendants v True)"
      show "returns A (resolvable this)
             (if \<not> instanceof_Object (child (fst e) (fst (snd e))) then Inr []
              else if \<not> hasOwn (child (fst e) (fst (snd e))) key then Inr []
              else evaluateExpr P this st (pathin @ snd (snd e) @ [key]))"
      proof (cases "instanceof_Object (child (fst e) (fst (snd e)))")
        case True
        from resolvable_descendant_key[OF w e True]
        have "returns A (resolvable this) (evaluateExpr P this st (pathin @ snd (snd e) @ [key]))"
          by (rule evaluateExpr_returns) (simp_all add: A)
        with True show ?thesis by simp
      next
        case False
        then show ?thesis by simp
      qed
    qed
    from returns_append[OF r1 r2] r1 False Some show ?thesis
      by (auto simp: getMatches_key_def split: sum.splits)
  qed
qed

lemma nested_matches_returns:
  assumes ev: "\<And>p. resolvable this p \<Longrightarrow> returns A R' (ev p)"
    and w: "walk (jp_root this) pathin = Inr v"
  shows "returns A (resolvable this) (nested_matches ev pathin v recursive)"
proof -
  from w have rp: "resolvable this pathin" by (auto simp: resolvable_def)
  have r1: "returns A (resolvable this)
         (if \<not> isArray v then
            (case ev pathin of
               Inl e \<Rightarrow> Inl e
             | Inr rs \<Rightarrow> Inr (if length rs \<noteq> 0 then [pathin] else []))
          else Inr [])"
    using ev[OF rp] rp by (auto split: sum.splits)
  have r2: "returns A (resolvable this)
         (collect (\<lambda>e.
             if isArray (child (fst e) (fst (snd e))) then Inr []
             else
               (case ev (pathin @ snd (snd e)) of
                  Inl e \<Rightarrow> Inl e
                | Inr rs \<Rightarrow> Inr (if length rs \<noteq> 0 then [pathin @ snd (snd e)] else [])))
           (descendants v recursive))"
  proof (rule returns_collect, goal_cases)
    case (1 e)
    from resolvable_descendant[OF w 1] have r: "resolvable this (pathin @ snd (snd e))" .
    from ev[OF r] r show ?case by (auto split: sum.splits)
  qed
  from returns_append[OF r1 r2] r1 show ?thesis
    unfolding nested_matches_def by (auto split: sum.splits)
qed

lemma getMatches_returns:
  assumes nt: "\<And>sub p. s_steps st = Some sub \<Longrightarrow> resolvable this p \<Longrightarrow>
                 returns A (resolvable this) (evaluate_priv P this sub p)"
    and all: "\<forall>p \<in> set listin. resolvable this p"
    and A: "A \<Longrightarrow> plain (jp_root this)" "A \<Longrightarrow> plain_step st"
  shows "returns A (resolvable this) (getMatches P this listin st)"
  unfolding getMatches.simps
proof (rule returns_collect, goal_cases)
  case (1 x)
  with all obtain v where w: "walk (jp_root this) x = Inr v" by (auto simp: resolvable_def)
  from walk_resolvePath[OF w] obtain r where r: "resolvePath this x = Inr r" "r_value r = v"
    by blast
  show ?case
  proof (cases "nullish v")
    case True
    with r show ?thesis by (auto simp: nullish_def)
  next
    case nn: False
    then have nn': "v \<noteq> JNull" "v \<noteq> JUndefined" by (auto simp: nullish_def)
    show ?thesis
    proof (cases "truthy_key (s_k st)")
      case True
      then obtain key where key: "s_k st = Some key"
        by (auto simp: truthy_key_def split: option.splits)
      from getMatches_key_returns[OF w nn A, where key = key] r nn' True key show ?thesis by simp
    next
      case False
      show ?thesis
      proof (cases "s_steps st")
        case None
        with r nn' False show ?thesis by simp
      next
        case (Some sub)
        have ev: "\<And>p. resolvable this p \<Longrightarrow>
                    returns A (resolvable this) (evaluate_priv P this sub p)"
          using nt Some by blast
        have "returns A (resolvable this)
                (nested_matches (evaluate_priv P this sub) x v (s_mv st = Some DESCENDANTS))"
          using ev w by (rule nested_matches_returns)
        then show ?thesis using r nn' False Some by (simp del: evaluate_priv.simps)
      qed
    qed
  qed
qed

lemma evaluate_loop_returns:
  assumes nt: "\<And>st sub p. st \<in> set steps \<Longrightarrow> s_steps st = Some sub \<Longrightarrow> resolvable this p \<Longrightarrow>
                 returns A (resolvable this) (evaluate_priv P this sub p)"
    and "resolvable this pathin" "\<forall>p \<in> set resultset. resolvable this p"
    and A: "A \<Longrightarrow> plain (jp_root this)" "A \<Longrightarrow> list_all plain_step steps"
  shows "returns A (resolvable this) (evaluate_loop P this steps pathin resultset)"
  using assms
proof (induction steps arbitrary: resultset)
  case Nil
  then show ?case by (simp add: list_all_iff)
next
  case (Cons st rest)
  have IH: "returns A (resolvable this) (evaluate_loop P this rest pathin rs)"
    if "\<forall>p \<in> set rs. resolvable this p" for rs
    using Cons.prems(1,2,4,5) that by (intro Cons.IH) auto
  show ?case
  proof (cases "s_mv st = Some CHILDREN \<or> s_mv st = Some DESCENDANTS")
    case True
    have g: "returns A (resolvable this) (getMatches P this resultset st)"
      using Cons.prems by (intro getMatches_returns) auto
    show ?thesis
    proof (cases "getMatches P this resultset st")
      case (Inl e)
      with g True show ?thesis by auto
    next
      case (Inr rs)
      with g have "\<forall>p \<in> set rs. resolvable this p" by (simp add: list_all_iff)
      from IH[OF this] True Inr show ?thesis by auto
    qed
  next
    case False
    with IH[of "[[]]"] IH[of "[pathin]"] IH[OF Cons.prems(3)] Cons.prems(2)
    show ?thesis by auto
  qed
qed

lemma evaluate_priv_returns:
  assumes "resolvable this pathin"
    and A: "A \<Longrightarrow> plain (jp_root this)" "A \<Longrightarrow> list_all plain_step steps"
  shows "returns A (resolvable this) (evaluate_priv P this steps pathin)"
  using assms
proof (induction steps arbitrary: pathin rule: measure_induct_rule[where f = "size_list size"])
  case (less steps)
  have "returns A (resolvable this) (evaluate_loop P this steps pathin [])"
  proof (rule evaluate_loop_returns)
    fix st sub p
    assume st: "st \<in> set steps" and sub: "s_steps st = Some sub" and p: "resolvable this p"
    have "size_list size sub < size st" using sub by (rule size_s_steps_less)
    also have "size st \<le> size_list size steps" using st by (simp add: size_list_estimation')
    finally have lt: "size_list size sub < size_list size steps" .
    have "list_all plain_step sub" if A
    proof -
      from less.prems(3)[OF that] st have "plain_step st" by (simp add: list_all_iff)
      with sub show ?thesis by (subst (asm) plain_step.simps) simp
    qed
    with less.IH[OF lt p less.prems(2)]
    show "returns A (resolvable this) (evaluate_priv P this sub p)" by blast
  qed (use less.prems in simp_all)
  then show ?case by simp
qed

lemma evaluate_priv_ok:
  assumes "resolvable this pathin" "evaluate_priv P this steps pathin = Inr out"
  shows "\<forall>p \<in> set out. resolvable this p"
  using evaluate_priv_returns[where this = this and pathin = pathin and A = False and steps = steps
      and P = P] assms
  by (simp add: list_all_iff del: evaluate_priv.simps)


text \<open>
  \<^verbatim>\<open>#getMatches\<close> treats the candidates one by one, and a candidate of the wrong shape adds
  nothing to the output.
\<close>

lemma evaluateExpr_no_op:
  assumes "s_op st = None" "walk (jp_root this) p = Inr obj" "obj \<noteq> JUndefined" "obj \<noteq> JNull"
  shows "evaluateExpr P this st (p @ [key]) =
           Inr (if hasOwn obj key = s_not st then [] else [p @ [key]])"
proof -
  from assms(3,4) obtain v where "get_prop obj key = Inr v"
    by (auto simp: get_prop_def)
  from evaluateExpr_snoc[OF assms(2) this] assms(1) show ?thesis
    by (simp add: outcome_of_def)
qed






text \<open>
  A step \<^verbatim>\<open>..name\<close> applied at the root returns the path of every node that owns the name,
  with the name added, in the order of the nodes.
\<close>

lemma collect_Inr:
  assumes "\<And>x. x \<in> set xs \<Longrightarrow> f x = Inr (g x)"
  shows "collect f xs = Inr (concat (map g xs))"
  using assms by (induction xs) simp_all

lemma concat_map_if:
  "concat (map (\<lambda>x. if c x then [h x] else []) xs) = map h (filter c xs)"
  by (induction xs) simp_all

lemma getMatches_descendant_key:
  assumes s: "s \<noteq> []" "s \<noteq> ''*''"
  shows "getMatches P this [[]] (mk_step (Some DESCENDANTS) (Some (KStr s)) None) =
           Inr (map (\<lambda>n. fst n @ [KStr s])
                  (filter (\<lambda>n. hasOwn (snd n) (KStr s)) (nodes (jp_root this))))"
proof -
  let ?st = "mk_step (Some DESCENDANTS) (Some (KStr s)) None"
  let ?key = "KStr s"
  let ?v = "jp_root this"
  show ?thesis
  proof (cases "nullish ?v")
    case True
    then have "descendants ?v True = []"
      by (subst descendants_unfold) (auto simp: nullish_def keys_of_def)
    moreover from True have "\<not> hasOwn ?v ?key"
      by (auto simp: nullish_def hasOwn_def instanceof_Object_def)
    ultimately show ?thesis
      using True by (auto simp: getMatches.simps resolvePath_Nil nodes_def nullish_def)
  next
    case False
    then have nn: "?v \<noteq> JUndefined" "?v \<noteq> JNull" by (auto simp: nullish_def)
    have w0: "walk ?v [] = Inr ?v" by simp
    have first: "evaluateExpr P this ?st [?key] =
                   Inr (if hasOwn ?v ?key then [[?key]] else [])"
      using evaluateExpr_no_op[OF _ w0 nn, where st = ?st and key = ?key] by simp
    have below: "collect (\<lambda>e.
                   if \<not> instanceof_Object (child (fst e) (fst (snd e))) then Inr []
                   else if \<not> hasOwn (child (fst e) (fst (snd e))) ?key then Inr []
                   else evaluateExpr P this ?st ([] @ snd (snd e) @ [?key]))
                 (descendants ?v True) =
               Inr (concat (map (\<lambda>e. if hasOwn (child (fst e) (fst (snd e))) ?key
                                      then [snd (snd e) @ [?key]] else [])
                      (descendants ?v True)))"
    proof (rule collect_Inr)
      fix e assume e: "e \<in> set (descendants ?v True)"
      let ?w = "child (fst e) (fst (snd e))"
      show "(if \<not> instanceof_Object ?w then Inr []
             else if \<not> hasOwn ?w ?key then Inr []
             else evaluateExpr P this ?st ([] @ snd (snd e) @ [?key])) =
            Inr (if hasOwn ?w ?key then [snd (snd e) @ [?key]] else [])"
      proof (cases "hasOwn ?w ?key")
        case True
        then have i: "instanceof_Object ?w" by (simp add: hasOwn_def)
        then have "?w \<noteq> JUndefined" "?w \<noteq> JNull"
          using instanceof_Object_not_nullish[OF i] by (auto simp: nullish_def)
        from evaluateExpr_no_op[OF _ descendants_walk_full[OF e] this, where st = ?st and key = ?key]
          True i
        show ?thesis by simp
      next
        case False
        then show ?thesis by simp
      qed
    qed
    have "getMatches_key P this ?st [] ?v ?key =
            Inr ((if hasOwn ?v ?key then [[?key]] else []) @
                 concat (map (\<lambda>e. if hasOwn (child (fst e) (fst (snd e))) ?key
                                   then [snd (snd e) @ [?key]] else [])
                          (descendants ?v True)))"
      using s(2) by (simp add: getMatches_key_def keyed_paths_def first below)
    then show ?thesis
      using nn s(1)
      by (simp add: getMatches.simps resolvePath_Nil truthy_key_def nodes_def concat_map_if
                    filter_map comp_def)
  qed
qed

text \<open>
  The evaluation reads the instance through its property \<^verbatim>\<open>root\<close> only, so two plans with
  the same steps give the same paths.
\<close>

lemma resolvePath_root_only:
  "resolvePath (this\<lparr>jp_compiled := c\<rparr>) p = resolvePath this p"
  by (simp add: resolvePath_def)

lemma evaluateExpr_root_only:
  "evaluateExpr P (this\<lparr>jp_compiled := c\<rparr>) = evaluateExpr P this"
  by (intro ext) (simp add: evaluateExpr_def resolvePath_root_only)

lemma getMatches_key_root_only:
  "getMatches_key P (this\<lparr>jp_compiled := c\<rparr>) st pathin v key = getMatches_key P this st pathin v key"
  unfolding getMatches_key_def evaluateExpr_root_only by (rule refl)

lemma getMatches_root_only:
  assumes "\<And>sub p. s_steps st = Some sub \<Longrightarrow>
     evaluate_priv P (this\<lparr>jp_compiled := c\<rparr>) sub p = evaluate_priv P this sub p"
  shows "getMatches P (this\<lparr>jp_compiled := c\<rparr>) listin st = getMatches P this listin st"
proof -
  have "\<And>sub. s_steps st = Some sub \<Longrightarrow>
          evaluate_priv P (this\<lparr>jp_compiled := c\<rparr>) sub = evaluate_priv P this sub"
    using assms by blast
  then show ?thesis
    unfolding getMatches.simps resolvePath_root_only getMatches_key_root_only
    by (intro collect_cong refl)
       (simp split: sum.splits option.splits del: evaluate_priv.simps
             cong: option.case_cong sum.case_cong if_cong)
qed

lemma evaluate_loop_root_only:
  assumes "\<And>st sub p. st \<in> set steps \<Longrightarrow> s_steps st = Some sub \<Longrightarrow>
     evaluate_priv P (this\<lparr>jp_compiled := c\<rparr>) sub p = evaluate_priv P this sub p"
  shows "evaluate_loop P (this\<lparr>jp_compiled := c\<rparr>) steps pathin resultset =
         evaluate_loop P this steps pathin resultset"
  using assms
proof (induction steps arbitrary: resultset)
  case Nil
  then show ?case by simp
next
  case (Cons st rest)
  have g: "\<And>listin. getMatches P (this\<lparr>jp_compiled := c\<rparr>) listin st = getMatches P this listin st"
    by (rule getMatches_root_only) (rule Cons.prems, simp_all)
  have l: "\<And>rs. evaluate_loop P (this\<lparr>jp_compiled := c\<rparr>) rest pathin rs =
         evaluate_loop P this rest pathin rs"
    by (rule Cons.IH) (rule Cons.prems, simp_all)
  show ?case by (simp add: g l split: sum.splits)
qed

lemma evaluate_priv_root_only:
  "evaluate_priv P (this\<lparr>jp_compiled := c\<rparr>) steps pathin = evaluate_priv P this steps pathin"
proof (induction steps arbitrary: pathin rule: measure_induct_rule[where f = "size_list size"])
  case (less steps)
  have "evaluate_loop P (this\<lparr>jp_compiled := c\<rparr>) steps pathin [] =
        evaluate_loop P this steps pathin []"
  proof (rule evaluate_loop_root_only)
    fix st sub p assume st: "st \<in> set steps" and sub: "s_steps st = Some sub"
    have "size_list size sub < size st" using sub by (rule size_s_steps_less)
    also have "size st \<le> size_list size steps" using st by (simp add: size_list_estimation')
    finally show "evaluate_priv P (this\<lparr>jp_compiled := c\<rparr>) sub p = evaluate_priv P this sub p"
      by (rule less.IH)
  qed
  then show ?case by simp
qed

lemma evaluate_priv_same_root:
  assumes "jp_root this = jp_root that"
  shows "evaluate_priv P this steps pathin = evaluate_priv P that steps pathin"
proof -
  from assms have "this = that\<lparr>jp_compiled := jp_compiled this\<rparr>" by simp
  then show ?thesis using evaluate_priv_root_only[where P = P and this = that and c = "jp_compiled this"
      and steps = steps and pathin = pathin]
    by simp
qed

lemma query_paths_shift:
  assumes "compile_priv P q' 0 = shift_plan (compile_priv P q 0)"
  shows "query_paths P q' rootv = query_paths P q rootv"
proof (cases "compile_priv P q 0")
  case (Inl e)
  with assms show ?thesis by (simp add: api_simps)
next
  case (Inr c)
  show ?thesis
  proof (cases c)
    case None
    with assms Inr show ?thesis by (simp add: api_simps)
  next
    case (Some r)
    have "evaluate_priv P \<lparr>jp_compiled = Some (r\<lparr>plan_i := Suc (plan_i r)\<rparr>), jp_root = rootv\<rparr>
            (plan_steps r) [] =
          evaluate_priv P \<lparr>jp_compiled = Some r, jp_root = rootv\<rparr> (plan_steps r) []"
      by (rule evaluate_priv_same_root) simp
    with assms Inr Some show ?thesis
      by (simp add: api_simps split: sum.splits del: evaluate_priv.simps)
  qed
qed

section \<open>C1: negative bracket indices\<close>

text \<open>
  Claim C1 says that on \<^verbatim>\<open>{ a: [10, 20, 30] }\<close> the query \<^verbatim>\<open>$.a[-1]\<close> returns the single path
  \<^verbatim>\<open>['a', 2]\<close> and the query \<^verbatim>\<open>$.a[-5]\<close> returns nothing. The code does neither. The
  bracket-index branch of \<^verbatim>\<open>#compile\<close> defaults the movement with \<^verbatim>\<open>this.CHILDREN\<close>, a field
  that does not exist, where its three sibling branches write \<^verbatim>\<open>this.#CHILDREN\<close>; the step
  gets the movement \<^verbatim>\<open>undefined\<close>, the \<^verbatim>\<open>switch\<close> of \<^verbatim>\<open>#evaluate\<close> skips it, and both queries
  return the path \<^verbatim>\<open>['a']\<close> of the array itself.
\<close>

theorem bracket_index_step_skipped:
  "query_paths P ''$.a[-1]'' root_a3 = Inr [[KStr ''a'']] \<and>
   query_paths P ''$.a[-5]'' root_a3 = Inr [[KStr ''a'']]"
  by (simp add: api_simps compile_simps eval_simps root_a3_def
           cong: collect_weak_cong map_weak_cong)

text \<open>
  \<^verbatim>\<open>#getMatches\<close> itself resolves the index against the length of the array as the claim
  describes: when a dot primes the movement, the step is evaluated and gives the results
  that the claim expects.
\<close>

lemma dot_bracket_index:
  "query_paths P ''$.a.[-1]'' root_a3 = Inr [[KStr ''a'', KNum 2]] \<and>
   query_paths P ''$.a.[-5]'' root_a3 = Inr []"
  by (simp add: api_simps compile_simps eval_simps root_a3_def
           cong: collect_weak_cong map_weak_cong)

section \<open>C2: exceptions of the compiler\<close>

text \<open>
  Claim C2 says that \<^verbatim>\<open>compile\<close> never raises, also on quoted keys with backslash escapes.
  On the query \<^verbatim>\<open>$['a\'b']\<close> it does: \<^verbatim>\<open>#consumeQuotedIdentifier\<close> reaches the backslash and
  calls \<^verbatim>\<open>query.chatCodeAt\<close>, a misspelling of \<^verbatim>\<open>charCodeAt\<close>, and the \<^verbatim>\<open>TypeError\<close> leaves
  \<^verbatim>\<open>compile\<close>.
\<close>

theorem compile_quoted_backslash_throws:
  "compile P new_JSONPath (''$['a'' @ [CHR 0x5C, CHR 0x27] @ ''b']'') = Inl TypeError"
  by (simp add: api_simps compile_simps)

text \<open>On a query without a backslash \<^verbatim>\<open>compile\<close> returns, as the claim says.\<close>

lemma compile_throws_only_on_backslash:
  "CHR 0x5C \<notin> set query \<Longrightarrow> \<exists>res. compile P this query = Inr res"
  by (cases "compile_priv P query 0")
     (auto simp: compile_def compile_priv_def dest: compile_loop_error split: if_splits)

section \<open>C3: a plan has two steps\<close>

text \<open>
  Claim C3: a plan that \<^verbatim>\<open>#compile\<close> returns, from any offset, has at least two steps, and so
  has the plan that \<^verbatim>\<open>compile\<close> stores; a parse that ends with fewer steps returns no plan;
  and \<^verbatim>\<open>evaluate\<close> on an instance without a plan returns the empty list, whatever the root,
  and leaves the instance as it is.
\<close>

theorem valid_plan_has_two_steps:
  "(compile_priv P query i = Inr (Some r) \<longrightarrow> 2 \<le> length (plan_steps r)) \<and>
   (compile P this query = Inr (n, this') \<longrightarrow>
      (case jp_compiled this' of None \<Rightarrow> n = 0 | Some c \<Rightarrow> 2 \<le> length (plan_steps c) \<and> n = plan_i c)) \<and>
   (length steps \<le> 1 \<longrightarrow> compile_end steps j = Inr None) \<and>
   (jp_compiled that = None \<longrightarrow> evaluate P that rootv = Inr ([], that))"
proof (intro conjI impI)
  assume "compile_priv P query i = Inr (Some r)"
  then show "2 \<le> length (plan_steps r)" by (rule compile_priv_two_steps)
next
  assume "compile P this query = Inr (n, this')"
  then show "case jp_compiled this' of None \<Rightarrow> n = 0
             | Some c \<Rightarrow> 2 \<le> length (plan_steps c) \<and> n = plan_i c"
    by (auto simp: compile_def dest: compile_priv_two_steps split: sum.splits option.splits)
next
  assume "length steps \<le> 1"
  then show "compile_end steps j = Inr None" by (simp add: compile_end_def)
next
  assume "jp_compiled that = None"
  then show "evaluate P that rootv = Inr ([], that)" by (simp add: evaluate_def)
qed

theorem valid_plan_has_two_steps_witness:
  "compile_priv example_platform ''$.a'' 0 = Inr (Some plan_dollar_a) \<and>
   2 \<le> length (plan_steps plan_dollar_a) \<and>
   compile example_platform new_JSONPath ''$.a'' =
     Inr (3, new_JSONPath\<lparr>jp_compiled := Some plan_dollar_a\<rparr>) \<and>
   length [mk_step (Some ROOT) None None] \<le> 1 \<and>
   compile_end [mk_step (Some ROOT) None None] 1 = Inr None \<and>
   compile example_platform new_JSONPath ''$'' = Inr (0, new_JSONPath) \<and>
   jp_compiled new_JSONPath = None \<and>
   evaluate example_platform new_JSONPath root_abc = Inr ([], new_JSONPath)"
proof -
  have h1: "compile_priv example_platform ''$.a'' 0 = Inr (Some plan_dollar_a)"
    by (simp add: compile_simps plan_dollar_a_def)
  have h2: "compile example_platform new_JSONPath ''$.a'' =
     Inr (3, new_JSONPath\<lparr>jp_compiled := Some plan_dollar_a\<rparr>)"
    by (simp add: compile_def h1) (simp add: plan_dollar_a_def)
  have h3: "length [mk_step (Some ROOT) None None] \<le> 1" by simp
  have h4: "jp_compiled new_JSONPath = None" by (simp add: new_JSONPath_def)
  have h5: "compile example_platform new_JSONPath ''$'' = Inr (0, new_JSONPath)"
    by (simp add: api_simps compile_simps)
  from valid_plan_has_two_steps [of example_platform "''$.a''" 0 plan_dollar_a new_JSONPath 3
      "new_JSONPath\<lparr>jp_compiled := Some plan_dollar_a\<rparr>" "[mk_step (Some ROOT) None None]" 1
      new_JSONPath root_abc] h1 h2 h3 h4 h5
  show ?thesis by simp
qed

section \<open>C4: a wrong shape prunes one branch\<close>




section \<open>C5: resolving the returned paths\<close>

text \<open>
  Claim C5 says that every path returned by \<^verbatim>\<open>evaluate\<close> resolves to a container and a key.
  It fails for the empty path. A bracket predicate directly after the anchor keeps the
  path of the root itself: on \<^verbatim>\<open>{ a: 1 }\<close> the query \<^verbatim>\<open>$[?(@.a)]\<close> returns the empty path, and
  \<^verbatim>\<open>resolvePath\<close> answers the empty path with \<^verbatim>\<open>{ value: root }\<close>, without \<^verbatim>\<open>obj\<close> and \<^verbatim>\<open>key\<close>.
\<close>

theorem root_path_has_no_container:
  "create example_platform ''$[?(@.a)]'' = Inr jp_root_predicate \<and>
   evaluate example_platform jp_root_predicate root_a1 =
     Inr ([[]], jp_root_predicate\<lparr>jp_root := root_a1\<rparr>) \<and>
   resolvePath (jp_root_predicate\<lparr>jp_root := root_a1\<rparr>) [] =
     Inr \<lparr>r_obj = None, r_key = None, r_value = root_a1\<rparr>"
  by (simp add: api_simps compile_simps eval_simps root_a1_def jp_root_predicate_def
           cong: collect_weak_cong map_weak_cong)

text \<open>
  Claim C5 as amended: for every path \<open>p\<close> returned by \<^verbatim>\<open>evaluate\<close>, \<^verbatim>\<open>resolvePath\<close> on the
  same root returns normally, and its \<^verbatim>\<open>value\<close> is the value at the end of \<open>p\<close>, the one that
  was examined during matching. When \<open>p\<close> is not empty, it yields the container at the end
  of \<open>p\<close> without its last key, that last key, and \<^verbatim>\<open>container[key]\<close> is the value. When \<open>p\<close>
  is empty, the value is the root and there is neither container nor key.
\<close>

theorem returned_paths_resolve:
  assumes "evaluate P this rootv = Inr (paths, this')" "p \<in> set paths"
  shows "\<exists>r. resolvePath this' p = Inr r \<and> walk rootv p = Inr (r_value r) \<and>
           (p = [] \<longrightarrow> r_obj r = None \<and> r_key r = None \<and> r_value r = rootv) \<and>
           (p \<noteq> [] \<longrightarrow>
              (\<exists>obj. r_obj r = Some obj \<and> r_key r = Some (last p) \<and>
                     walk rootv (butlast p) = Inr obj \<and>
                     get_prop obj (last p) = Inr (r_value r)))"
proof (cases "jp_compiled this")
  case None
  with assms show ?thesis by (simp add: evaluate_def)
next
  case (Some c)
  let ?jp = "this\<lparr>jp_root := rootv\<rparr>"
  from assms(1) Some have e: "evaluate_priv P ?jp (plan_steps c) [] = Inr paths" and t: "this' = ?jp"
    by (auto simp: evaluate_def split: sum.splits simp del: evaluate_priv.simps)
  from evaluate_priv_ok[OF _ e] assms(2) have "resolvable ?jp p"
    by simp
  from resolvePath_resolvable[OF this] t show ?thesis by simp
qed

theorem returned_paths_resolve_witness:
  "evaluate example_platform jp_descendant_c root_abc =
     Inr ([[KStr ''a'', KStr ''b'', KStr ''c'']], jp_descendant_c\<lparr>jp_root := root_abc\<rparr>) \<and>
   [KStr ''a'', KStr ''b'', KStr ''c''] \<in> set [[KStr ''a'', KStr ''b'', KStr ''c'']] \<and>
   (\<exists>r. resolvePath (jp_descendant_c\<lparr>jp_root := root_abc\<rparr>) [KStr ''a'', KStr ''b'', KStr ''c''] = Inr r \<and>
        walk root_abc [KStr ''a'', KStr ''b'', KStr ''c''] = Inr (r_value r) \<and>
        r_obj r = Some (JObj [(''c'', JNum 1)]) \<and> r_key r = Some (KStr ''c'') \<and>
        r_value r = JNum 1)"
proof -
  have h1: "evaluate example_platform jp_descendant_c root_abc =
     Inr ([[KStr ''a'', KStr ''b'', KStr ''c'']], jp_descendant_c\<lparr>jp_root := root_abc\<rparr>)"
    by (simp add: api_simps eval_simps root_abc_def jp_descendant_c_def
             cong: collect_weak_cong map_weak_cong)
  have h2: "[KStr ''a'', KStr ''b'', KStr ''c''] \<in> set [[KStr ''a'', KStr ''b'', KStr ''c'']]"
    by simp
  have h3: "walk root_abc [KStr ''a'', KStr ''b''] = Inr (JObj [(''c'', JNum 1)])"
    by (simp add: eval_simps root_abc_def)
  have h4: "get_prop (JObj [(''c'', JNum 1)]) (KStr ''c'') = Inr (JNum 1)"
    by (simp add: eval_simps)
  from returned_paths_resolve [OF h1 h2] h1 h2 h3 h4
  show ?thesis by auto
qed

section \<open>C6: descendant search for a named key\<close>

text \<open>
  Claim C6: descendant search for a named key finds the key at any depth below the
  anchored node. For every name that is an identifier and every document, the query
  \<^verbatim>\<open>$..name\<close> returns, in the order of the nodes, the path of each node that owns the name,
  with the name added; and the nodes of a document are exactly the values that a chain
  of keys leads to from the root, the root itself with the empty chain. So whatever chain
  of keys leads to a value that owns the name, the chain with the name added is among the
  paths returned. In particular, on
  \<^verbatim>\<open>{ a: { b: { c: 1 } } }\<close> the query \<^verbatim>\<open>$..c\<close> returns exactly the path \<^verbatim>\<open>['a','b','c']\<close>, the
  query \<^verbatim>\<open>$..b\<close> exactly the path \<^verbatim>\<open>['a','b']\<close>, and the query \<^verbatim>\<open>$..a\<close> exactly the path \<^verbatim>\<open>['a']\<close>.
\<close>

theorem descendant_named_key:
  "(is_identifier s \<longrightarrow>
      query_paths P (''$..'' @ s) rootv =
        Inr (map (\<lambda>n. fst n @ [KStr s])
               (filter (\<lambda>n. hasOwn (snd n) (KStr s)) (nodes rootv)))) \<and>
   ((q, w) \<in> set (nodes rootv) \<longleftrightarrow> own_chain rootv q = Some w) \<and>
   (is_identifier s \<longrightarrow> own_chain rootv q = Some w \<longrightarrow> hasOwn w (KStr s) \<longrightarrow>
      (\<exists>paths. query_paths P (''$..'' @ s) rootv = Inr paths \<and> q @ [KStr s] \<in> set paths)) \<and>
   query_paths P ''$..c'' root_abc = Inr [[KStr ''a'', KStr ''b'', KStr ''c'']] \<and>
   query_paths P ''$..b'' root_abc = Inr [[KStr ''a'', KStr ''b'']] \<and>
   query_paths P ''$..a'' root_abc = Inr [[KStr ''a'']]"
proof -
  have general: "query_paths P (''$..'' @ s) rootv =
        Inr (map (\<lambda>n. fst n @ [KStr s])
               (filter (\<lambda>n. hasOwn (snd n) (KStr s)) (nodes rootv)))"
    if s: "is_identifier s" for s rootv
  proof -
    from s have ne: "s \<noteq> []" "s \<noteq> ''*''"
      using is_letter_not_punct[of "hd s"] by (auto simp: is_identifier_def)
    let ?st = "mk_step (Some DESCENDANTS) (Some (KStr s)) None"
    let ?c = "\<lparr>plan_steps = [mk_step (Some ROOT) None None, ?st], plan_i = 3 + length s\<rparr>"
    let ?jp = "\<lparr>jp_compiled = Some ?c, jp_root = rootv\<rparr>"
    have "evaluate_priv P ?jp [mk_step (Some ROOT) None None, ?st] [] =
            getMatches P ?jp [[]] ?st"
      by (simp split: sum.splits)
    also have "\<dots> = Inr (map (\<lambda>n. fst n @ [KStr s])
                          (filter (\<lambda>n. hasOwn (snd n) (KStr s)) (nodes rootv)))"
      using getMatches_descendant_key[OF ne, where P = P and this = ?jp] by simp
    finally show ?thesis
      using compile_priv_descendant_identifier[OF s, of P]
      by (simp add: api_simps del: evaluate_priv.simps)
  qed
  have ex: "query_paths P ''$..c'' root_abc = Inr [[KStr ''a'', KStr ''b'', KStr ''c'']]"
    "query_paths P ''$..b'' root_abc = Inr [[KStr ''a'', KStr ''b'']]"
    "query_paths P ''$..a'' root_abc = Inr [[KStr ''a'']]"
    by (simp_all add: api_simps compile_simps eval_simps root_abc_def
                 cong: collect_weak_cong map_weak_cong)
  have found: "\<exists>paths. query_paths P (''$..'' @ s) rootv = Inr paths \<and> q @ [KStr s] \<in> set paths"
    if s: "is_identifier s" and w: "own_chain rootv q = Some w" "hasOwn w (KStr s)"
  proof -
    from w(1) have "(q, w) \<in> set (nodes rootv)" by (simp add: nodes_own_chain)
    with w(2) have "(q, w) \<in> set (filter (\<lambda>n. hasOwn (snd n) (KStr s)) (nodes rootv))" by simp
    from imageI[OF this, of "\<lambda>n. fst n @ [KStr s]"] general[OF s, of rootv]
    show ?thesis by simp
  qed
  from general[of s rootv] nodes_own_chain[of q w rootv] found ex show ?thesis by blast
qed

theorem descendant_named_key_witness:
  "is_identifier ''c'' \<and>
   nodes root_abc =
     [([], root_abc),
      ([KStr ''a''], JObj [(''b'', JObj [(''c'', JNum 1)])]),
      ([KStr ''a'', KStr ''b''], JObj [(''c'', JNum 1)]),
      ([KStr ''a'', KStr ''b'', KStr ''c''], JNum 1)] \<and>
   query_paths example_platform (''$..'' @ ''c'') root_abc =
     Inr [[KStr ''a'', KStr ''b'', KStr ''c'']] \<and>
   ([KStr ''a'', KStr ''b''], JObj [(''c'', JNum 1)]) \<in> set (nodes root_abc) \<and>
   own_chain root_abc [KStr ''a'', KStr ''b''] = Some (JObj [(''c'', JNum 1)])"
proof -
  have i: "is_identifier ''c''"
    by (simp add: is_identifier_def is_letter_def)
  have n: "nodes root_abc =
     [([], root_abc),
      ([KStr ''a''], JObj [(''b'', JObj [(''c'', JNum 1)])]),
      ([KStr ''a'', KStr ''b''], JObj [(''c'', JNum 1)]),
      ([KStr ''a'', KStr ''b'', KStr ''c''], JNum 1)]"
    by (simp add: nodes_def eval_simps root_abc_def cong: map_weak_cong)
  have h: "hasOwn (JObj [(''c'', JNum 1)]) (KStr ''c'')"
    "\<not> hasOwn root_abc (KStr ''c'')" "\<not> hasOwn (JObj [(''b'', JObj [(''c'', JNum 1)])]) (KStr ''c'')"
    "\<not> hasOwn (JNum 1) (KStr ''c'')"
    by (simp_all add: eval_simps root_abc_def)
  from descendant_named_key [of "''c''" example_platform root_abc "[KStr ''a'', KStr ''b'']"
      "JObj [(''c'', JNum 1)]"] i n h
  show ?thesis by simp
qed

section \<open>C7: comparison predicates\<close>

text \<open>
  Claim C7: on \<^verbatim>\<open>{ items: [ {v:1}, {v:2}, {v:3} ] }\<close> the query \<^verbatim>\<open>$.items[*][?(@.v>=2)]\<close>
  returns exactly the paths of the items whose \<^verbatim>\<open>v\<close> is 2 and 3, in the order of the array.
  This holds on every platform whose \<^verbatim>\<open>JSON.parse\<close> decodes the text \<^verbatim>\<open>2\<close> as the number 2.
\<close>

theorem comparison_predicate_filters:
  assumes "JSON_parse P ''2'' = Some (JNum 2)"
  shows "query_paths P ''$.items[*][?(@.v>=2)]'' root_items =
           Inr [[KStr ''items'', KNum 1], [KStr ''items'', KNum 2]]"
  using assms
  by (simp add: api_simps compile_simps eval_simps root_items_def
           cong: collect_weak_cong map_weak_cong)

theorem comparison_predicate_filters_witness:
  "JSON_parse example_platform ''2'' = Some (JNum 2) \<and>
   query_paths example_platform ''$.items[*][?(@.v>=2)]'' root_items =
     Inr [[KStr ''items'', KNum 1], [KStr ''items'', KNum 2]]"
proof -
  have h: "JSON_parse example_platform ''2'' = Some (JNum 2)"
    by (simp add: example_platform_def)
  show ?thesis
    using h comparison_predicate_filters [OF h] by (rule conjI)
qed

section \<open>C8: a literal that does not decode\<close>

text \<open>
  Claim C8: when \<^verbatim>\<open>#reExpr\<close> matches at the offset and \<^verbatim>\<open>JSON.parse\<close> rejects the literal,
  \<^verbatim>\<open>#compileExpr\<close> leaves the step without an operator and moves the offset past the
  operator and the literal, to the \<^verbatim>\<open>)]\<close> that an enclosing bracket predicate expects; the
  compilation does not fail, it returns the steps it had;
  and at evaluation time a step without an operator keeps a path exactly when the
  container owns the key (or, for a negated step, when it does not).
\<close>

theorem undecodable_literal_downgrades:
  assumes "reExpr_exec (drop i query) = Some (opr, lit)" "JSON_parse P lit = None"
  shows "compileExpr P st query i = (st, i + length opr + length lit) \<and>
         startsWith query '')]'' (i + length opr + length lit) \<and>
         (2 \<le> length steps \<longrightarrow>
            compile_loop P query steps UNDEFINED i =
              Inr (Some \<lparr>plan_steps = steps, plan_i = i + length opr + length lit\<rparr>)) \<and>
         (s_op st = None \<longrightarrow> walk (jp_root this) p = Inr obj \<longrightarrow>
            obj \<noteq> JUndefined \<longrightarrow> obj \<noteq> JNull \<longrightarrow>
            evaluateExpr P this st (p @ [key]) =
              Inr (if hasOwn obj key = s_not st then [] else [p @ [key]]))"
proof (intro conjI impI)
  show "compileExpr P st query i = (st, i + length opr + length lit)"
    using assms by (rule compileExpr_undecodable)
next
  show "startsWith query '')]'' (i + length opr + length lit)"
    using assms(1) by (rule reExpr_exec_followed)
next
  assume len: "2 \<le> length steps"
  then have ne: "steps \<noteq> []" by auto
  from reExpr_exec_token[OF assms(1)] ne len
  show "compile_loop P query steps UNDEFINED i =
          Inr (Some \<lparr>plan_steps = steps, plan_i = i + length opr + length lit\<rparr>)"
    by (subst compile_loop_token)
       (simp add: compileExpr_undecodable[OF assms] compile_end_def)
next
  assume "s_op st = None" "walk (jp_root this) p = Inr obj" "obj \<noteq> JUndefined" "obj \<noteq> JNull"
  then show "evaluateExpr P this st (p @ [key]) =
              Inr (if hasOwn obj key = s_not st then [] else [p @ [key]])"
    by (rule evaluateExpr_no_op)
qed

theorem undecodable_literal_downgrades_witness:
  "reExpr_exec (drop 3 ''@.v>=x)]'') = Some (''>='', ''x'') \<and>
   JSON_parse example_platform ''x'' = None \<and>
   compileExpr example_platform (mk_step (Some CHILDREN) (Some (KStr ''v'')) None) ''@.v>=x)]'' 3 =
     (mk_step (Some CHILDREN) (Some (KStr ''v'')) None, 3 + length ''>='' + length ''x'') \<and>
   startsWith ''@.v>=x)]'' '')]'' (3 + length ''>='' + length ''x'') \<and>
   2 \<le> length [mk_step (Some CURRENT) None None, mk_step (Some CHILDREN) (Some (KStr ''v'')) None] \<and>
   compile_loop example_platform ''@.v>=x)]''
     [mk_step (Some CURRENT) None None, mk_step (Some CHILDREN) (Some (KStr ''v'')) None] UNDEFINED 3 =
     Inr (Some \<lparr>plan_steps = [mk_step (Some CURRENT) None None,
                                mk_step (Some CHILDREN) (Some (KStr ''v'')) None],
                 plan_i = 3 + length ''>='' + length ''x''\<rparr>) \<and>
   s_op (mk_step (Some CHILDREN) (Some (KStr ''v'')) None) = None \<and>
   walk (jp_root \<lparr>jp_compiled = None, jp_root = JObj [(''v'', JNum 1)]\<rparr>) [] =
     Inr (JObj [(''v'', JNum 1)]) \<and>
   JObj [(''v'', JNum 1)] \<noteq> JUndefined \<and> JObj [(''v'', JNum 1)] \<noteq> JNull \<and>
   evaluateExpr example_platform \<lparr>jp_compiled = None, jp_root = JObj [(''v'', JNum 1)]\<rparr>
     (mk_step (Some CHILDREN) (Some (KStr ''v'')) None) ([] @ [KStr ''v'']) = Inr [[KStr ''v'']]"
proof -
  have h1: "reExpr_exec (drop 3 ''@.v>=x)]'') = Some (''>='', ''x'')"
    by (simp add: reExpr_exec_def)
  have h2: "JSON_parse example_platform ''x'' = None"
    by (simp add: example_platform_def)
  have h3: "hasOwn (JObj [(''v'', JNum 1)]) (KStr ''v'')"
    by (simp add: eval_simps)
  from undecodable_literal_downgrades [OF h1 h2,
      of "mk_step (Some CHILDREN) (Some (KStr ''v'')) None"
         "[mk_step (Some CURRENT) None None, mk_step (Some CHILDREN) (Some (KStr ''v'')) None]"
         "\<lparr>jp_compiled = None, jp_root = JObj [(''v'', JNum 1)]\<rparr>" "[]"
         "JObj [(''v'', JNum 1)]" "KStr ''v''"] h1 h2 h3
  show ?thesis by simp
qed

text \<open>
  For example, the predicate \<^verbatim>\<open>[?(@.v>=x)]\<close>, whose literal \<^verbatim>\<open>x\<close> is not JSON, keeps every item
  that owns a key \<^verbatim>\<open>v\<close>, whatever its value.
\<close>

lemma undecodable_literal_example:
  "query_paths example_platform ''$.items[*][?(@.v>=x)]'' root_items =
     Inr [[KStr ''items'', KNum 0], [KStr ''items'', KNum 1], [KStr ''items'', KNum 2]]"
  by (simp add: api_simps compile_simps eval_simps root_items_def example_platform_def
           cong: collect_weak_cong map_weak_cong)

section \<open>C9: a query without an anchor\<close>

text \<open>
  Claim C9: for a query that is not empty and starts with neither \<^verbatim>\<open>$\<close> nor \<^verbatim>\<open>@\<close>, the anchor
  step has the movement \<^verbatim>\<open>CURRENT\<close> and the offset stays at 0; the query compiles to the plan
  of the same query with \<^verbatim>\<open>@\<close> in front of it, the final offset apart; and both return the
  same paths on every document.
\<close>

theorem missing_anchor_is_current:
  assumes "query \<noteq> []" "hd query \<noteq> CHR ''$''" "hd query \<noteq> CHR ''@''"
  shows "anchor query 0 = ([mk_step (Some CURRENT) None None], 0) \<and>
         compile_priv P (CHR ''@'' # query) 0 = shift_plan (compile_priv P query 0) \<and>
         query_paths P (CHR ''@'' # query) rootv = query_paths P query rootv"
  using assms
  by (simp add: anchor_no_anchor compile_priv_at query_paths_shift)

theorem missing_anchor_is_current_witness:
  "''.a'' \<noteq> [] \<and> hd ''.a'' \<noteq> CHR ''$'' \<and> hd ''.a'' \<noteq> CHR ''@'' \<and>
   anchor ''.a'' 0 = ([mk_step (Some CURRENT) None None], 0) \<and>
   compile_priv example_platform ''.a'' 0 =
     Inr (Some \<lparr>plan_steps = [mk_step (Some CURRENT) None None,
                                mk_step (Some CHILDREN) (Some (KStr ''a'')) None],
                 plan_i = 2\<rparr>) \<and>
   compile_priv example_platform ''@.a'' 0 = shift_plan (compile_priv example_platform ''.a'' 0) \<and>
   query_paths example_platform ''@.a'' root_abc = query_paths example_platform ''.a'' root_abc"
proof -
  have h: "''.a'' \<noteq> []" "hd ''.a'' \<noteq> CHR ''$''" "hd ''.a'' \<noteq> CHR ''@''" by simp_all
  have c: "compile_priv example_platform ''.a'' 0 =
     Inr (Some \<lparr>plan_steps = [mk_step (Some CURRENT) None None,
                                mk_step (Some CHILDREN) (Some (KStr ''a'')) None],
                 plan_i = 2\<rparr>)"
    by (simp add: compile_simps)
  from missing_anchor_is_current [OF h, of example_platform root_abc] h c
  show ?thesis by simp
qed

section \<open>C10: resolvePath is partial\<close>



end
